theory Spec2Isabelle
  imports Complex_Main "HOL-Library.Word"
begin

section \<open>Trajectory analysis: stop detection\<close>

text \<open>
  \<^verbatim>\<open>TrajectoryPoint\<close> of \<^verbatim>\<open>types.ts\<close>. A \<^verbatim>\<open>Date\<close> is held as its time value, the
  milliseconds since the epoch that \<^verbatim>\<open>getTime()\<close> returns; the numbers are rationals.
  The opaque \<^verbatim>\<open>metadata\<close> field is left out: no function modelled here reads it.
\<close>

record TrajectoryPoint =
  longitude :: rat
  latitude :: rat
  altitude :: "rat option"
  timestamp :: int
  speed :: "rat option"
  heading :: "rat option"
  accuracy :: "rat option"

text \<open>
  \<^verbatim>\<open>points[i]\<close>: an index outside the array reads \<^verbatim>\<open>undefined\<close>, which is \<open>None\<close> here.
\<close>

definition at_index :: "'a list \<Rightarrow> int \<Rightarrow> 'a option" where
  "at_index xs i = (if 0 \<le> i \<and> i < int (length xs) then Some (xs ! nat i) else None)"

text \<open>
  The body of the \<^verbatim>\<open>for\<close> loop of \<^verbatim>\<open>detectStopPoints\<close> at index \<open>i\<close>, on the two
  variables the loop updates: \<^verbatim>\<open>stopStart\<close> (\<open>None\<close> is \<^verbatim>\<open>null\<close>) and \<^verbatim>\<open>stopPoints\<close>.
\<close>

definition stopStep ::
  "TrajectoryPoint list \<Rightarrow> rat \<Rightarrow> rat \<Rightarrow> nat \<Rightarrow> nat option \<times> nat list \<Rightarrow> nat option \<times> nat list"
where
  "stopStep points speedThreshold durationThreshold i st =
    (case st of (stopStart, stopPoints) \<Rightarrow>
      let point = at_index points (int i);
          spd = (case point of None \<Rightarrow> 0
                 | Some p \<Rightarrow> (case speed p of None \<Rightarrow> 0 | Some v \<Rightarrow> v))
      in if spd \<le> speedThreshold then
           (case stopStart of None \<Rightarrow> (Some i, stopPoints) | Some s \<Rightarrow> (Some s, stopPoints))
         else
           (case stopStart of
              None \<Rightarrow> (None, stopPoints)
            | Some s \<Rightarrow>
               (case (at_index points (int s), at_index points (int i - 1)) of
                  (Some startPoint, Some endPoint) \<Rightarrow>
                    let duration = of_int (timestamp endPoint - timestamp startPoint) / 1000
                    in if duration \<ge> durationThreshold
                       then (None, stopPoints @ [s]) else (None, stopPoints)
                | _ \<Rightarrow> (None, stopPoints))))"

function stopLoop ::
  "TrajectoryPoint list \<Rightarrow> rat \<Rightarrow> rat \<Rightarrow> nat \<Rightarrow> nat option \<times> nat list \<Rightarrow> nat option \<times> nat list"
where
  "stopLoop points speedThreshold durationThreshold i st =
    (if i < length points
     then stopLoop points speedThreshold durationThreshold (i + 1)
            (stopStep points speedThreshold durationThreshold i st)
     else st)"
  by pat_completeness auto
termination
  by (relation "measure (\<lambda>(points, _, _, i, _). length points - i)") auto

text \<open>
  \<^verbatim>\<open>detectStopPoints(points, speedThreshold = 0.5, durationThreshold = 60)\<close>: the loop
  from index 0 with \<^verbatim>\<open>stopStart = null\<close> and no stop point; the function returns
  \<^verbatim>\<open>stopPoints\<close> as the loop leaves it.
\<close>

definition detectStopPoints :: "TrajectoryPoint list \<Rightarrow> rat \<Rightarrow> rat \<Rightarrow> nat list" where
  "detectStopPoints points speedThreshold durationThreshold =
     snd (stopLoop points speedThreshold durationThreshold 0 (None, []))"

text \<open>A point at time \<open>t\<close> (milliseconds) with the recorded speed \<open>v\<close>, for the examples.\<close>

definition sample :: "int \<Rightarrow> rat option \<Rightarrow> TrajectoryPoint" where
  "sample t v = \<lparr>longitude = 0, latitude = 0, altitude = None, timestamp = t,
                 speed = v, heading = None, accuracy = None\<rparr>"

section \<open>Device command validation\<close>

text \<open>The result object \<^verbatim>\<open>{ valid: boolean; error?: string }\<close> of both validators.\<close>

record validation =
  valid :: bool
  error :: "string option"

definition DEFAULT_CONFIRM_ACTIONS :: "string list" where
  "DEFAULT_CONFIRM_ACTIONS = [''takeoff'', ''land'', ''return_home'', ''stop'']"

definition validActions :: "string list" where
  "validActions =
     [''takeoff'', ''land'', ''move_to'', ''return_home'', ''pause'', ''resume'', ''stop'',
      ''capture_photo'', ''start_video'', ''stop_video'', ''set_altitude'', ''set_speed'',
      ''custom'']"

text \<open>\<^verbatim>\<open>xs.join(sep)\<close> on an array of strings.\<close>

fun join :: "string \<Rightarrow> string list \<Rightarrow> string" where
  "join sep [] = []"
| "join sep [x] = x"
| "join sep (x # y # ys) = x @ sep @ join sep (y # ys)"

text \<open>
  \<^verbatim>\<open>validateDeviceCommand(action, allowedActions?)\<close>. Its only inputs are the action
  and the optional allow-list (\<open>None\<close> when the caller passes none).
\<close>

definition validateDeviceCommand :: "string \<Rightarrow> string list option \<Rightarrow> validation" where
  "validateDeviceCommand action allowedActions =
     (if action \<notin> set validActions then
        \<lparr>valid = False,
         error = Some (''Invalid action: '' @ action @ ''. Valid actions: ''
                         @ join '', '' validActions)\<rparr>
      else (case allowedActions of
              Some allowed \<Rightarrow>
                if action \<notin> set allowed
                then \<lparr>valid = False, error = Some (''Action not allowed: '' @ action)\<rparr>
                else \<lparr>valid = True, error = None\<rparr>
            | None \<Rightarrow> \<lparr>valid = True, error = None\<rparr>))"

section \<open>Regular expressions of the query validator\<close>

text \<open>
  A JavaScript string is modelled as a \<open>string\<close>, a list of 8-bit characters: the code
  units 0 to 255. The regular expressions of \<^verbatim>\<open>validateSQLQuery\<close> are sequences of
  literal characters, \<^verbatim>\<open>\s*\<close>, \<^verbatim>\<open>\s+\<close>, \<^verbatim>\<open>\w+\<close>, one \<^verbatim>\<open>\b\<close> and one capturing
  group that lasts to the end of its pattern; all carry the flag \<^verbatim>\<open>i\<close>. A pattern
  is a list of atoms. \<open>Group\<close> marks the place where the capturing group opens.
\<close>

datatype cls = Space | Word

datatype atom = Lit char | Many0 cls | Many1 cls | Bound | Group

text \<open>
  \<^verbatim>\<open>\s\<close> on code units up to 255: tab, line feed, vertical tab, form feed, carriage
  return, space and no-break space. \<^verbatim>\<open>\w\<close> is \<^verbatim>\<open>[A-Za-z0-9_]\<close>.
\<close>

definition is_space :: "char \<Rightarrow> bool" where
  "is_space c =
     (c \<in> set [CHR 0x09, CHR 0x0A, CHR 0x0B, CHR 0x0C, CHR 0x0D, CHR 0x20, CHR 0xA0])"

definition is_word :: "char \<Rightarrow> bool" where
  "is_word c =
     (let n = (of_char c :: nat)
      in (48 \<le> n \<and> n \<le> 57) \<or> (65 \<le> n \<and> n \<le> 90) \<or> n = 95 \<or> (97 \<le> n \<and> n \<le> 122))"

fun in_cls :: "cls \<Rightarrow> char \<Rightarrow> bool" where
  "in_cls Space c = is_space c"
| "in_cls Word c = is_word c"

text \<open>
  Matching under the flag \<^verbatim>\<open>i\<close> compares canonical forms. Without the flag \<^verbatim>\<open>u\<close>
  the canonical form of a character is its upper case, except that a character from 128
  on never becomes one below 128. The literals of the patterns are all below 128, so only
  the letters \<^verbatim>\<open>a\<close> to \<^verbatim>\<open>z\<close> need a canonical form other than themselves here.
\<close>

definition canonicalize :: "char \<Rightarrow> char" where
  "canonicalize c =
     (let n = (of_char c :: nat) in if 97 \<le> n \<and> n \<le> 122 then char_of (n - 32) else c)"

text \<open>\<^verbatim>\<open>String.prototype.toLowerCase\<close> on code units up to 255.\<close>

definition toLowerCase :: "string \<Rightarrow> string" where
  "toLowerCase s =
     map (\<lambda>c. let n = (of_char c :: nat)
               in if (65 \<le> n \<and> n \<le> 90) \<or> (192 \<le> n \<and> n \<le> 222 \<and> n \<noteq> 215)
                  then char_of (n + 32) else c) s"

text \<open>
  \<^verbatim>\<open>\b\<close> holds where exactly one of the character before the position and the
  character at it is a word character; the two ends of the input count as non-word.
\<close>

definition word_before :: "char option \<Rightarrow> bool" where
  "word_before p = (case p of None \<Rightarrow> False | Some c \<Rightarrow> is_word c)"

definition word_at :: "string \<Rightarrow> bool" where
  "word_at s = (case s of [] \<Rightarrow> False | c # _ \<Rightarrow> is_word c)"

text \<open>
  The backtracking matcher at one position: \<open>rx pat p s\<close> matches \<open>pat\<close> at the start
  of \<open>s\<close>, with \<open>p\<close> the character before it. The quantifiers are greedy: one more
  character is tried first, and the rest of the pattern at the current position only when
  that fails. The result of the first success is \<open>(m, e, q)\<close>: the input from where the
  group opened, the input after the match, and the character before the end of the match.
\<close>

fun rx :: "atom list \<Rightarrow> char option \<Rightarrow> string \<Rightarrow> (string \<times> string \<times> char option) option"
where
  "rx [] p s = Some (s, s, p)"
| "rx (Lit c # as) p [] = None"
| "rx (Lit c # as) p (x # xs) =
     (if canonicalize x = canonicalize c then rx as (Some x) xs else None)"
| "rx (Many0 k # as) p [] = rx as p []"
| "rx (Many0 k # as) p (x # xs) =
     (if in_cls k x
      then (case rx (Many0 k # as) (Some x) xs of
              Some r \<Rightarrow> Some r
            | None \<Rightarrow> rx as p (x # xs))
      else rx as p (x # xs))"
| "rx (Many1 k # as) p [] = None"
| "rx (Many1 k # as) p (x # xs) =
     (if in_cls k x then rx (Many0 k # as) (Some x) xs else None)"
| "rx (Bound # as) p s = (if word_before p \<noteq> word_at s then rx as p s else None)"
| "rx (Group # as) p s =
     (case rx as p s of Some (m, e, q) \<Rightarrow> Some (s, e, q) | None \<Rightarrow> None)"

text \<open>The leftmost match at or after the current position, as \<^verbatim>\<open>exec\<close> searches it.\<close>

fun rx_search ::
  "atom list \<Rightarrow> char option \<Rightarrow> string \<Rightarrow> (string \<times> string \<times> char option) option"
where
  "rx_search pat p [] = rx pat p []"
| "rx_search pat p (x # xs) =
     (case rx pat p (x # xs) of Some r \<Rightarrow> Some r | None \<Rightarrow> rx_search pat (Some x) xs)"

text \<open>\<^verbatim>\<open>pattern.test(sql)\<close> of a pattern without the flag \<^verbatim>\<open>g\<close>.\<close>

definition test :: "atom list \<Rightarrow> string \<Rightarrow> bool" where
  "test pat s = (rx_search pat None s \<noteq> None)"

text \<open>\<^verbatim>\<open>pattern.source\<close>: the text of the pattern between the slashes.\<close>

fun atom_source :: "atom \<Rightarrow> string" where
  "atom_source (Lit c) = [c]"
| "atom_source (Many0 Space) = [CHR 0x5C, CHR ''s'', CHR ''*'']"
| "atom_source (Many1 Space) = [CHR 0x5C, CHR ''s'', CHR ''+'']"
| "atom_source (Many0 Word) = [CHR 0x5C, CHR ''w'', CHR ''*'']"
| "atom_source (Many1 Word) = [CHR 0x5C, CHR ''w'', CHR ''+'']"
| "atom_source Bound = [CHR 0x5C, CHR ''b'']"
| "atom_source Group = ''(''"

definition source :: "atom list \<Rightarrow> string" where
  "source pat = concat (map atom_source pat) @ (if Group \<in> set pat then '')'' else [])"

definition lits :: "string \<Rightarrow> atom list" where
  "lits s = map Lit s"

section \<open>Query validation\<close>

text \<open>
  The six patterns \<^verbatim>\<open>/;\s*VERB\s+/i\<close>, the two patterns \<^verbatim>\<open>/Q\s*or\s+Q1Q\s*=\s*Q1/i\<close>
  (\<open>Q\<close> the single and the double quote) and \<^verbatim>\<open>/union\s+select/i\<close>, in the order
  of the array \<^verbatim>\<open>dangerousPatterns\<close>.
\<close>

definition stacked :: "string \<Rightarrow> atom list" where
  "stacked verb = Lit (CHR '';'') # Many0 Space # lits verb @ [Many1 Space]"

definition tautology :: "char \<Rightarrow> atom list" where
  "tautology q =
     Lit q # Many0 Space # lits ''or'' @ Many1 Space # Lit q # Lit (CHR ''1'') # Lit q
       # Many0 Space # Lit (CHR ''='') # Many0 Space # Lit q # [Lit (CHR ''1'')]"

definition dangerousPatterns :: "atom list list" where
  "dangerousPatterns =
     [stacked ''drop'', stacked ''delete'', stacked ''update'', stacked ''insert'',
      stacked ''truncate'', stacked ''alter'',
      tautology (CHR 0x27), tautology (CHR 0x22),
      lits ''union'' @ Many1 Space # lits ''select'']"

text \<open>\<^verbatim>\<open>/\bfrom\s+(\w+)/gi\<close>\<close>

definition tablePattern :: "atom list" where
  "tablePattern = Bound # lits ''from'' @ [Many1 Space, Group, Many1 Word]"

definition DEFAULT_ALLOWED_TABLES :: "string list" where
  "DEFAULT_ALLOWED_TABLES =
     [''drone_trajectory'', ''device_status'', ''mission_log'', ''geo_fence'',
      ''telemetry_data'', ''spatial_index'']"

text \<open>
  The \<^verbatim>\<open>for\<close> loop over the patterns: \<open>Some\<close> is the early \<^verbatim>\<open>return\<close> at the first
  pattern that matches, \<open>None\<close> the loop running to its end.
\<close>

fun scanPatterns :: "atom list list \<Rightarrow> string \<Rightarrow> validation option" where
  "scanPatterns [] sql = None"
| "scanPatterns (pattern # rest) sql =
     (if test pattern sql
      then Some \<lparr>valid = False,
                 error = Some (''Potentially dangerous SQL pattern detected: ''
                                 @ source pattern)\<rparr>
      else scanPatterns rest sql)"

text \<open>A match of a pattern consumes at least one character for each of its literals.\<close>

fun is_Lit :: "atom \<Rightarrow> bool" where
  "is_Lit (Lit c) = True"
| "is_Lit a = False"

lemma rx_consumes:
  "rx pat p s = Some (m, e, q) \<Longrightarrow> length e + length (filter is_Lit pat) \<le> length s"
proof (induction pat p s arbitrary: m e q rule: rx.induct)
  case (5 k as p x xs)
  then show ?case by (auto split: if_splits option.splits)
next
  case (9 as p s)
  then show ?case by (auto split: option.splits)
qed (auto split: if_splits)

lemma rx_search_consumes:
  "rx_search pat p s = Some (m, e, q) \<Longrightarrow> length e + length (filter is_Lit pat) \<le> length s"
proof (induction s arbitrary: p)
  case Nil
  then show ?case using rx_consumes by fastforce
next
  case (Cons x xs)
  show ?case
  proof (cases "rx pat p (x # xs)")
    case None
    with Cons.prems have "rx_search pat (Some x) xs = Some (m, e, q)" by simp
    from Cons.IH[OF this] show ?thesis by simp
  next
    case (Some r)
    with Cons.prems have "rx pat p (x # xs) = Some (m, e, q)" by simp
    from rx_consumes[OF this] show ?thesis .
  qed
qed

text \<open>
  The \<^verbatim>\<open>while\<close> loop over the matches of \<^verbatim>\<open>tablePattern\<close>. The pattern has the flag
  \<^verbatim>\<open>g\<close>, so each \<^verbatim>\<open>exec\<close> searches from \<^verbatim>\<open>lastIndex\<close>, the end of the match before:
  \<open>s\<close> is the input from \<^verbatim>\<open>lastIndex\<close> on and \<open>p\<close> the character before it. The
  capture \<^verbatim>\<open>match[1]\<close> is the input from the opening of the group to the end of the
  match.
\<close>

function tableLoop :: "string list \<Rightarrow> char option \<Rightarrow> string \<Rightarrow> validation" where
  "tableLoop allowedTables p s =
     (case rx_search tablePattern p s of
        None \<Rightarrow> \<lparr>valid = True, error = None\<rparr>
      | Some (m, e, q) \<Rightarrow>
          let tableName = toLowerCase (take (length m - length e) m)
          in if tableName \<noteq> [] \<and> tableName \<notin> set allowedTables
             then \<lparr>valid = False, error = Some (''Table not in allowed list: '' @ tableName)\<rparr>
             else tableLoop allowedTables q e)"
  by pat_completeness auto
termination
proof (relation "measure (\<lambda>(allowedTables, p, s). length s)")
  fix allowedTables :: "string list" and p s x2 m y e q tableName
  assume "rx_search tablePattern p s = Some x2" "(m, y) = x2" "(e, q) = y"
  then have "rx_search tablePattern p s = Some (m, e, q)" by simp
  from rx_search_consumes[OF this]
  show "((allowedTables, q, e), (allowedTables, p, s))
          \<in> measure (\<lambda>(allowedTables, p, s). length s)"
    by (simp add: tablePattern_def lits_def)
qed simp

definition validateSQLQuery :: "string \<Rightarrow> string list \<Rightarrow> validation" where
  "validateSQLQuery sql allowedTables =
     (case scanPatterns dangerousPatterns sql of
        Some rejected \<Rightarrow> rejected
      | None \<Rightarrow> tableLoop allowedTables None sql)"

section \<open>Query compilation\<close>

text \<open>
  A \<^verbatim>\<open>Date\<close> is its time value in milliseconds since the epoch, or invalid (the time
  value \<^verbatim>\<open>NaN\<close>). \<^verbatim>\<open>toISOString\<close> throws a \<^verbatim>\<open>RangeError\<close> on an invalid date, the
  only exception \<^verbatim>\<open>generateSQL\<close> can raise.
\<close>

datatype Date = Date int | InvalidDate

datatype error = RangeError string

text \<open>
  The decimal digit of \<open>d\<close>, and \<open>digits k n\<close>: the last \<open>k\<close> decimal digits of
  \<open>n \<ge> 0\<close>, padded with zeros.
\<close>

definition digit :: "int \<Rightarrow> char" where
  "digit d = char_of (48 + d)"

fun digits :: "nat \<Rightarrow> int \<Rightarrow> string" where
  "digits 0 n = []"
| "digits (Suc k) n = digits k (n div 10) @ [digit (n mod 10)]"

text \<open>The decimal numeral of \<open>n \<ge> 0\<close>, without leading zeros.\<close>

function decimal :: "int \<Rightarrow> string" where
  "decimal n = (if n < 10 then [digit n] else decimal (n div 10) @ [digit (n mod 10)])"
  by pat_completeness auto
termination
  by (relation "measure nat") auto

text \<open>
  A JavaScript number, as far as the code modelled here reads one: it tests it for truth
  and writes it into a template literal. \<open>Integer w\<close> is an integer from \<open>- 2^53\<close> to
  \<open>2^53 - 1\<close>, held as a word of 54 bits read as a signed number; JavaScript represents
  each of them exactly and writes it with all its decimal digits. \<open>NaN\<close> is the number
  of that name. \<open>Other s\<close> is any other number (a fraction, an integer of larger
  magnitude, an infinity), given by the string \<open>s\<close> that JavaScript writes for it, such
  as \<^verbatim>\<open>2.5\<close>, \<^verbatim>\<open>1e+21\<close> or \<^verbatim>\<open>Infinity\<close>.
\<close>

datatype number = Integer "54 word" | NaN | Other string

text \<open>A number is truthy unless it is \<open>0\<close> or \<open>NaN\<close>.\<close>

fun ToBoolean :: "number \<Rightarrow> bool" where
  "ToBoolean (Integer w) = (w \<noteq> 0)"
| "ToBoolean NaN = False"
| "ToBoolean (Other s) = True"

text \<open>The string of a number in a template literal.\<close>

fun numberToString :: "number \<Rightarrow> string" where
  "numberToString (Integer w) =
     (if sint w < 0 then ''-'' @ decimal (- sint w) else decimal (sint w))"
| "numberToString NaN = ''NaN''"
| "numberToString (Other s) = s"

text \<open>
  \<^verbatim>\<open>Date.prototype.toISOString\<close>: \<^verbatim>\<open>YYYY-MM-DDTHH:mm:ss.sssZ\<close> in UTC, the year with a
  sign and six digits outside 0 to 9999. The date of a day number is computed in the
  proleptic Gregorian calendar, by 400-year eras that start on the first of March.
\<close>

definition toISOString :: "Date \<Rightarrow> error + string" where
  "toISOString d =
     (case d of
        InvalidDate \<Rightarrow> Inl (RangeError ''Invalid time value'')
      | Date t \<Rightarrow>
          if \<bar>t\<bar> > 8640000000000000 then Inl (RangeError ''Invalid time value'')
          else
            let day = t div 86400000;
                ms = t mod 86400000;
                z = day + 719468;
                era = z div 146097;
                doe = z - era * 146097;
                yoe = (doe - doe div 1460 + doe div 36524 - doe div 146096) div 365;
                doy = doe - (365 * yoe + yoe div 4 - yoe div 100);
                mp = (5 * doy + 2) div 153;
                dom = doy - (153 * mp + 2) div 5 + 1;
                month = (if mp < 10 then mp + 3 else mp - 9);
                year = yoe + era * 400 + (if month \<le> 2 then 1 else 0);
                yyyy = (if 0 \<le> year \<and> year \<le> 9999 then digits 4 year
                        else (if year < 0 then ''-'' else ''+'') @ digits 6 \<bar>year\<bar>)
            in Inr (yyyy @ ''-'' @ digits 2 month @ ''-'' @ digits 2 dom
                    @ ''T'' @ digits 2 (ms div 3600000) @ '':'' @ digits 2 (ms div 60000 mod 60)
                    @ '':'' @ digits 2 (ms div 1000 mod 60) @ ''.'' @ digits 3 (ms mod 1000)
                    @ ''Z''))"

text \<open>
  \<^verbatim>\<open>SpatialQuery\<close> of \<^verbatim>\<open>types.ts\<close>. The time range is the pair of its \<^verbatim>\<open>start\<close> and
  its \<^verbatim>\<open>end\<close>. The geometry is a value of any type \<open>'g\<close>, which \<^verbatim>\<open>generateSQL\<close> only
  hands to \<^verbatim>\<open>JSON.stringify\<close>; that function is a parameter of the model. The field \<^verbatim>\<open>filters\<close> is left out: \<^verbatim>\<open>generateSQL\<close> does not read it.
\<close>

datatype queryType = point | polygon | circle | bbox | trajectory

datatype direction = asc | desc

record orderEntry =
  field :: string
  direction :: direction

record 'g SpatialQuery =
  type :: queryType
  timeRange :: "(Date \<times> Date) option"
  geometry :: "'g option"
  select :: "string list option"
  orderBy :: "orderEntry list option"
  limit :: "number option"

fun toUpperCase_direction :: "direction \<Rightarrow> string" where
  "toUpperCase_direction asc = ''ASC''"
| "toUpperCase_direction desc = ''DESC''"

text \<open>
  \<^verbatim>\<open>PostGISBackend.generateSQL\<close>. It returns the statement text alone. Each \<open>sql\<close>
  below is the variable \<^verbatim>\<open>sql\<close> after one more statement of the source.
\<close>

definition generateSQL :: "('g \<Rightarrow> string) \<Rightarrow> 'g SpatialQuery \<Rightarrow> error + string" where
  "generateSQL JSON_stringify query =
     (let sql = ''SELECT '';
          sql = (case select query of
                   Some cols \<Rightarrow> if length cols > 0 then sql @ join '', '' cols
                                else sql @ ''*''
                 | None \<Rightarrow> sql @ ''*'');
          sql = sql @ '' FROM spatial_data WHERE 1=1''
      in case (case timeRange query of
                 None \<Rightarrow> Inr sql
               | Some (start, finish) \<Rightarrow>
                   (case toISOString start of
                      Inl e \<Rightarrow> Inl e
                    | Inr a \<Rightarrow>
                       (case toISOString finish of
                          Inl e \<Rightarrow> Inl e
                        | Inr b \<Rightarrow>
                            Inr (sql @ '' AND timestamp BETWEEN '' @ [CHR 0x27] @ a
                                   @ [CHR 0x27] @ '' AND '' @ [CHR 0x27] @ b @ [CHR 0x27]))))
         of Inl e \<Rightarrow> Inl e
          | Inr sql \<Rightarrow>
             let sql = (case geometry query of
                          Some g \<Rightarrow>
                            sql @ '' AND ST_Within(geom, ST_GeomFromGeoJSON('' @ [CHR 0x27]
                              @ JSON_stringify g @ [CHR 0x27] @ ''))''
                        | None \<Rightarrow> sql);
                 sql = (case orderBy query of
                          Some entries \<Rightarrow>
                            if length entries > 0
                            then sql @ '' ORDER BY ''
                                   @ join '', ''
                                       (map (\<lambda>entry. field entry @ '' ''
                                               @ toUpperCase_direction (direction entry))
                                          entries)
                            else sql
                        | None \<Rightarrow> sql);
                 sql = (case limit query of
                          Some n \<Rightarrow>
                            if ToBoolean n then sql @ '' LIMIT '' @ numberToString n else sql
                        | None \<Rightarrow> sql)
             in Inr sql)"

text \<open>
  The default of the option \<^verbatim>\<open>maxRows\<close> that \<^verbatim>\<open>createSpatialQueryMiddleware\<close> reads
  and does not use.
\<close>

definition DEFAULT_MAX_ROWS :: int where
  "DEFAULT_MAX_ROWS = 1000"

section \<open>Device API client: fetch with retry\<close>

text \<open>
  The configuration of \<^verbatim>\<open>DeviceBackend\<close> as its constructor stores it: \<^verbatim>\<open>timeout\<close> and
  \<^verbatim>\<open>retry\<close> are always set (the constructor fills in 30000 ms and 3 attempts with waits
  from 1000 ms to 10000 ms when the caller gives none). Times and the number of attempts
  are integers.
\<close>

record RetryConfig =
  maxAttempts :: int
  minWait :: int
  maxWait :: int

record DeviceConfig =
  endpoint :: string
  apiKey :: "string option"
  timeout :: int
  retry :: RetryConfig

record Response =
  ok :: bool
  status :: number
  statusText :: string
  body :: string











section \<open>Notions used in the statements\<close>

subsection \<open>Retry policy\<close>









subsection \<open>Statement text\<close>

text \<open>
  Two strings are equal up to the case of letters, as a literal of a pattern with the
  flag \<^verbatim>\<open>i\<close> matches. \<open>prev_after p xs\<close> is the character before the position reached
  from one with \<open>p\<close> before it by reading \<open>xs\<close>.
\<close>

definition ci_equal :: "string \<Rightarrow> string \<Rightarrow> bool" where
  "ci_equal a b = (map canonicalize a = map canonicalize b)"

definition prev_after :: "char option \<Rightarrow> string \<Rightarrow> char option" where
  "prev_after p xs = (if xs = [] then p else Some (last xs))"

text \<open>
  The statement \<open>s\<close>, read from a position with \<open>p\<close> before it, names the table \<open>w\<close>
  after a \<^verbatim>\<open>FROM\<close>: it holds the keyword in any letter case, not preceded by a word
  character, then whitespace, then the whole word \<open>w\<close>.
\<close>

definition from_names :: "char option \<Rightarrow> string \<Rightarrow> string \<Rightarrow> bool" where
  "from_names p s w \<longleftrightarrow>
     (\<exists>pre F ws post. s = pre @ F @ ws @ w @ post \<and> \<not> word_before (prev_after p pre)
        \<and> ci_equal F ''from'' \<and> ws \<noteq> [] \<and> list_all is_space ws
        \<and> w \<noteq> [] \<and> list_all is_word w \<and> \<not> word_at post)"

definition table_rejected :: "string list \<Rightarrow> char option \<Rightarrow> string \<Rightarrow> validation \<Rightarrow> bool" where
  "table_rejected allowed p s r \<longleftrightarrow>
     (\<exists>w. from_names p s w \<and> toLowerCase w \<notin> set allowed
        \<and> r = \<lparr>valid = False,
                error = Some (''Table not in allowed list: '' @ toLowerCase w)\<rparr>)"

text \<open>
  The three shapes of text that the forbidden patterns match: a semicolon, optional
  whitespace, one of six verbs and a whitespace character; a quote, optional whitespace,
  \<^verbatim>\<open>or\<close>, whitespace, \<^verbatim>\<open>1\<close> in quotes, \<^verbatim>\<open>=\<close> with optional whitespace around it, a
  quote and \<^verbatim>\<open>1\<close> (with single or with double quotes throughout); and \<^verbatim>\<open>union\<close>,
  whitespace, \<^verbatim>\<open>select\<close>. Keywords are in any letter case.
\<close>

definition stackedVerbs :: "string list" where
  "stackedVerbs = [''drop'', ''delete'', ''update'', ''insert'', ''truncate'', ''alter'']"

definition stacked_statement :: "string \<Rightarrow> bool" where
  "stacked_statement sql \<longleftrightarrow>
     (\<exists>pre ws V sp post verb.
        sql = pre @ '';'' @ ws @ V @ [sp] @ post \<and> list_all is_space ws
        \<and> verb \<in> set stackedVerbs \<and> ci_equal V verb \<and> is_space sp)"

definition quoted_tautology :: "string \<Rightarrow> bool" where
  "quoted_tautology sql \<longleftrightarrow>
     (\<exists>q pre ws1 kw ws2 ws3 ws4 post.
        (q = CHR 0x27 \<or> q = CHR 0x22)
        \<and> sql = pre @ [q] @ ws1 @ kw @ ws2 @ [q, CHR ''1'', q] @ ws3 @ ''='' @ ws4
                  @ [q, CHR ''1''] @ post
        \<and> list_all is_space ws1 \<and> ci_equal kw ''or'' \<and> ws2 \<noteq> [] \<and> list_all is_space ws2
        \<and> list_all is_space ws3 \<and> list_all is_space ws4)"

definition union_select :: "string \<Rightarrow> bool" where
  "union_select sql \<longleftrightarrow>
     (\<exists>pre u ws s post.
        sql = pre @ u @ ws @ s @ post \<and> ci_equal u ''union'' \<and> ws \<noteq> []
        \<and> list_all is_space ws \<and> ci_equal s ''select'')"

subsection \<open>Clauses of the generated statement\<close>

text \<open>
  The text that each statement of \<^verbatim>\<open>generateSQL\<close> appends, as a function of the query.
\<close>

definition selectClause :: "'g SpatialQuery \<Rightarrow> string" where
  "selectClause query =
     (case select query of
        Some cols \<Rightarrow> if length cols > 0 then join '', '' cols else ''*''
      | None \<Rightarrow> ''*'')"

definition timeClause :: "'g SpatialQuery \<Rightarrow> error + string" where
  "timeClause query =
     (case timeRange query of
        None \<Rightarrow> Inr []
      | Some (start, finish) \<Rightarrow>
          (case toISOString start of
             Inl e \<Rightarrow> Inl e
           | Inr a \<Rightarrow>
              (case toISOString finish of
                 Inl e \<Rightarrow> Inl e
               | Inr b \<Rightarrow>
                   Inr ('' AND timestamp BETWEEN '' @ [CHR 0x27] @ a @ [CHR 0x27]
                          @ '' AND '' @ [CHR 0x27] @ b @ [CHR 0x27]))))"

definition geometryClause :: "('g \<Rightarrow> string) \<Rightarrow> 'g SpatialQuery \<Rightarrow> string" where
  "geometryClause JSON_stringify query =
     (case geometry query of
        Some g \<Rightarrow> '' AND ST_Within(geom, ST_GeomFromGeoJSON('' @ [CHR 0x27]
                    @ JSON_stringify g @ [CHR 0x27] @ ''))''
      | None \<Rightarrow> [])"

definition orderClause :: "'g SpatialQuery \<Rightarrow> string" where
  "orderClause query =
     (case orderBy query of
        Some entries \<Rightarrow>
          if length entries > 0
          then '' ORDER BY ''
                 @ join '', '' (map (\<lambda>entry. field entry @ '' ''
                                       @ toUpperCase_direction (direction entry)) entries)
          else []
      | None \<Rightarrow> [])"

definition limitClause :: "'g SpatialQuery \<Rightarrow> string" where
  "limitClause query =
     (case limit query of
        Some n \<Rightarrow> if ToBoolean n then '' LIMIT '' @ numberToString n else []
      | None \<Rightarrow> [])"

section \<open>Lemmas on characters and letter case\<close>

lemma prev_after_simps [simp]:
  "prev_after p [] = p"
  "prev_after p (x # xs) = prev_after (Some x) xs"
  "prev_after p (xs @ ys) = prev_after (prev_after p xs) ys"
  by (auto simp: prev_after_def)

lemma space_not_word: "is_space c \<Longrightarrow> \<not> is_word c"
  by (auto simp: is_space_def is_word_def)

lemma of_char_canonicalize:
  "(of_char (canonicalize c) :: nat) =
     (if 97 \<le> (of_char c :: nat) \<and> (of_char c :: nat) \<le> 122 then of_char c - 32 else of_char c)"
proof -
  have "(of_char c :: nat) - 32 < 256"
    by (rule less_imp_diff_less) simp
  then show ?thesis
    by (simp add: canonicalize_def Let_def)
qed

lemma canonicalize_eq_iff:
  "canonicalize x = canonicalize c \<longleftrightarrow>
     (if 97 \<le> (of_char x :: nat) \<and> (of_char x :: nat) \<le> 122 then of_char x - 32 else of_char x)
       = (if 97 \<le> (of_char c :: nat) \<and> (of_char c :: nat) \<le> 122 then of_char c - 32 else (of_char c :: nat))"
proof -
  have "canonicalize x = canonicalize c
          \<longleftrightarrow> (of_char (canonicalize x) :: nat) = of_char (canonicalize c)"
    by simp
  then show ?thesis by (simp only: of_char_canonicalize)
qed

lemma canonicalize_word: "canonicalize x = canonicalize c \<Longrightarrow> is_word c \<Longrightarrow> is_word x"
  unfolding canonicalize_eq_iff is_word_def Let_def
  by (auto split: if_splits)

lemma toLowerCase_canonicalize:
  assumes "canonicalize x = canonicalize c" and "97 \<le> (of_char c :: nat)" and "(of_char c :: nat) \<le> 122"
  shows "toLowerCase [x] = [c]"
proof -
  define a b where "a = (of_char x :: nat)" and "b = (of_char c :: nat)"
  have xa: "x = char_of a" and cb: "c = char_of b"
    by (simp_all add: a_def b_def)
  have lt: "a < 256" "b < 256" by (simp_all add: a_def b_def)
  from assms have b: "97 \<le> b" "b \<le> 122"
    by (simp_all add: b_def)
  from assms have "a = b \<or> a + 32 = b"
    unfolding canonicalize_eq_iff a_def [symmetric] b_def [symmetric]
    by (auto split: if_splits)
  then show ?thesis
  proof
    assume "a = b"
    with b show ?thesis
      unfolding toLowerCase_def Let_def list.map a_def [symmetric] xa cb by simp
  next
    assume "a + 32 = b"
    with b lt show ?thesis
      unfolding toLowerCase_def Let_def list.map xa cb by (simp add: of_char_of)
  qed
qed

lemma toLowerCase_append: "toLowerCase (a @ b) = toLowerCase a @ toLowerCase b"
  by (simp add: toLowerCase_def)

lemma toLowerCase_Cons: "toLowerCase (x # xs) = toLowerCase [x] @ toLowerCase xs"
  by (simp add: toLowerCase_def)

lemma toLowerCase_ci_from:
  assumes "ci_equal F ''from''"
  shows "toLowerCase F = ''from''"
proof -
  from assms obtain a b c d where F: "F = [a, b, c, d]"
    and *: "canonicalize a = canonicalize (CHR ''f'')" "canonicalize b = canonicalize (CHR ''r'')"
      "canonicalize c = canonicalize (CHR ''o'')" "canonicalize d = canonicalize (CHR ''m'')"
    by (auto simp: ci_equal_def map_eq_Cons_conv)
  have "toLowerCase [a] = ''f''" "toLowerCase [b] = ''r''" "toLowerCase [c] = ''o''" "toLowerCase [d] = ''m''"
    using * by (simp_all add: toLowerCase_canonicalize)
  then show ?thesis
    unfolding F by (simp add: toLowerCase_def)
qed

lemma ci_equal_word:
  "ci_equal F v \<Longrightarrow> \<forall>c\<in>set v. is_word c \<Longrightarrow> \<forall>c\<in>set F. is_word c"
proof (induction F arbitrary: v)
  case Nil
  then show ?case by simp
next
  case (Cons x F)
  then obtain c v' where v: "v = c # v'" and "canonicalize x = canonicalize c" and "ci_equal F v'"
    by (auto simp: ci_equal_def map_eq_Cons_conv)
  with Cons show ?case
    by (auto intro: canonicalize_word)
qed

lemma ci_equal_Nil [simp]: "ci_equal [] v \<longleftrightarrow> v = []" "ci_equal V [] \<longleftrightarrow> V = []"
  by (auto simp: ci_equal_def)

lemma ci_equal_Cons:
  "ci_equal (x # V) v \<longleftrightarrow> (\<exists>c v'. v = c # v' \<and> canonicalize x = canonicalize c \<and> ci_equal V v')"
  by (auto simp: ci_equal_def map_eq_Cons_conv)

lemma ci_equal_Cons2:
  "ci_equal V (c # v) \<longleftrightarrow> (\<exists>x V'. V = x # V' \<and> canonicalize x = canonicalize c \<and> ci_equal V' v)"
  by (auto simp: ci_equal_def Cons_eq_map_conv)

lemma ci_equal_length: "ci_equal V v \<Longrightarrow> length V = length v"
  unfolding ci_equal_def by (rule map_eq_imp_length_eq)

section \<open>Lemmas on the matcher\<close>

lemma rx_lits:
  "ci_equal V v \<Longrightarrow> rx (lits v @ as) p (V @ t) = rx as (prev_after p V) t"
proof (induction V arbitrary: v p)
  case Nil
  then show ?case by (simp add: lits_def)
next
  case (Cons x V)
  then obtain c v' where v: "v = c # v'" and c: "canonicalize x = canonicalize c"
    and r: "ci_equal V v'"
    by (auto simp: ci_equal_Cons)
  from Cons.IH [OF r] c show ?case
    by (simp add: v lits_def)
qed

lemma rx_lits_SomeD:
  "rx (lits v @ as) p s = Some r \<Longrightarrow>
     \<exists>V t. s = V @ t \<and> ci_equal V v \<and> rx as (prev_after p V) t = Some r"
proof (induction v arbitrary: p s)
  case Nil
  then show ?case by (auto simp: lits_def)
next
  case (Cons c v)
  from Cons.prems obtain x xs where s: "s = x # xs"
    by (cases s) (auto simp: lits_def)
  with Cons.prems have c: "canonicalize x = canonicalize c"
    and "rx (lits v @ as) (Some x) xs = Some r"
    by (auto simp: lits_def split: if_splits)
  from Cons.IH [OF this(2)] obtain V t where "xs = V @ t" "ci_equal V v"
    "rx as (prev_after (Some x) V) t = Some r"
    by blast
  with c s show ?case
    by (intro exI [of _ "x # V"] exI [of _ t]) (simp add: ci_equal_Cons)
qed

lemma rx_Many0_Word_end:
  "rx [Many0 Word] p s =
     Some (dropWhile is_word s, dropWhile is_word s, prev_after p (takeWhile is_word s))"
  by (induction s arbitrary: p) auto

lemma rx_Many1_Word_end:
  "rx [Many1 Word] p s =
     (if takeWhile is_word s = [] then None
      else Some (dropWhile is_word s, dropWhile is_word s, Some (last (takeWhile is_word s))))"
  by (cases s) (auto simp: rx_Many0_Word_end prev_after_def)

lemma rx_Group_Word:
  "rx [Group, Many1 Word] p s =
     (if takeWhile is_word s = [] then None
      else Some (s, dropWhile is_word s, Some (last (takeWhile is_word s))))"
  by (simp add: rx_Many1_Word_end)

lemma rx_Many0_Space_Group:
  "rx [Many0 Space, Group, Many1 Word] p s =
     rx [Group, Many1 Word] (prev_after p (takeWhile is_space s)) (dropWhile is_space s)"
proof (induction s arbitrary: p)
  case Nil
  then show ?case by simp
next
  case (Cons x xs)
  show ?case
  proof (cases "is_space x")
    case True
    then have nw: "\<not> is_word x" by (rule space_not_word)
    show ?thesis
    proof (cases "rx [Many0 Space, Group, Many1 Word] (Some x) xs")
      case None
      with Cons.IH [of "Some x"] True nw show ?thesis
        by (simp add: rx_Many1_Word_end)
    next
      case (Some r)
      with Cons.IH [of "Some x"] True nw show ?thesis
        by (simp add: rx_Many1_Word_end)
    qed
  next
    case False
    then show ?thesis by simp
  qed
qed

lemma rx_Many1_Space_Group:
  "rx [Many1 Space, Group, Many1 Word] p s =
     (if takeWhile is_space s = [] then None
      else rx [Group, Many1 Word] (Some (last (takeWhile is_space s))) (dropWhile is_space s))"
  by (cases s) (auto simp: rx_Many0_Space_Group prev_after_def)

lemma word_at_dropWhile: "\<not> word_at (dropWhile is_word u)"
  by (induction u) (simp_all add: word_at_def)

text \<open>What a match of the table pattern at one position is.\<close>

lemma rx_tablePattern_SomeD:
  assumes "rx tablePattern p s = Some (m, e, q)"
  shows "\<exists>F ws w. s = F @ ws @ w @ e \<and> m = w @ e \<and> ci_equal F ''from'' \<and> \<not> word_before p
           \<and> ws \<noteq> [] \<and> (\<forall>c\<in>set ws. is_space c) \<and> w \<noteq> [] \<and> (\<forall>c\<in>set w. is_word c)
           \<and> \<not> word_at e \<and> q = Some (last w)"
proof -
  from assms have b: "word_before p \<noteq> word_at s"
    and r: "rx (lits ''from'' @ [Many1 Space, Group, Many1 Word]) p s = Some (m, e, q)"
    by (auto simp: tablePattern_def split: if_splits)
  from rx_lits_SomeD [OF r] obtain F t where s: "s = F @ t" and F: "ci_equal F ''from''"
    and t: "rx [Many1 Space, Group, Many1 Word] (prev_after p F) t = Some (m, e, q)"
    by blast
  define ws where "ws = takeWhile is_space t"
  define u where "u = dropWhile is_space t"
  define w where "w = takeWhile is_word u"
  from t have ws: "ws \<noteq> []" and w: "w \<noteq> []" and m: "m = u" and e: "e = dropWhile is_word u"
    and q: "q = Some (last w)"
    by (auto simp: rx_Many1_Space_Group rx_Many1_Word_end ws_def u_def w_def split: if_splits)
  have t_eq: "t = ws @ w @ e"
    by (simp add: ws_def u_def w_def e)
  have "\<forall>c\<in>set F. is_word c"
    using F by (rule ci_equal_word) (simp add: is_word_def)
  moreover from F have "F \<noteq> []" by (auto simp: ci_equal_def)
  ultimately have "word_at s"
    by (cases F) (auto simp: s word_at_def)
  with b have "\<not> word_before p" by simp
  moreover have "\<forall>c\<in>set ws. is_space c"
    by (auto simp: ws_def dest: set_takeWhileD)
  moreover have "\<forall>c\<in>set w. is_word c"
    by (auto simp: w_def dest: set_takeWhileD)
  moreover have "\<not> word_at e"
    unfolding e by (rule word_at_dropWhile)
  moreover have "m = w @ e"
    by (simp add: m w_def e)
  ultimately show ?thesis
    using s t_eq F ws w q by blast
qed

lemma rx_tablePattern_SomeI:
  assumes "ci_equal F ''from''" and "\<not> word_before p"
    and "ws \<noteq> []" and "\<forall>c\<in>set ws. is_space c"
    and "w \<noteq> []" and "\<forall>c\<in>set w. is_word c" and "\<not> word_at e"
  shows "rx tablePattern p (F @ ws @ w @ e) = Some (w @ e, e, Some (last w))"
proof -
  have "\<forall>c\<in>set F. is_word c"
    using assms(1) by (rule ci_equal_word) (simp add: is_word_def)
  moreover from assms(1) have "F \<noteq> []" by (auto simp: ci_equal_def)
  ultimately have "word_at (F @ ws @ w @ e)"
    by (cases F) (auto simp: word_at_def)
  with assms(2) have b: "word_before p \<noteq> word_at (F @ ws @ w @ e)" by simp
  from assms(5,6) have "\<not> is_space (hd w)"
    by (cases w) (auto dest: space_not_word)
  with assms(3,4,5) have tw: "takeWhile is_space (ws @ w @ e) = ws"
    and dw: "dropWhile is_space (ws @ w @ e) = w @ e"
    by (cases w; simp add: takeWhile_append dropWhile_append)+
  from assms(5,6,7) have tw2: "takeWhile is_word (w @ e) = w"
    and dw2: "dropWhile is_word (w @ e) = e"
    by (cases e; simp add: word_at_def dropWhile_append takeWhile_append)+
  have "rx tablePattern p (F @ ws @ w @ e)
          = rx (lits ''from'' @ [Many1 Space, Group, Many1 Word]) p (F @ ws @ w @ e)"
    using b by (simp add: tablePattern_def)
  also have "\<dots> = rx [Many1 Space, Group, Many1 Word] (prev_after p F) (ws @ w @ e)"
    using assms(1) by (rule rx_lits)
  also have "\<dots> = Some (w @ e, e, Some (last w))"
    using assms(3,5) by (simp add: rx_Many1_Space_Group rx_Many1_Word_end tw dw tw2 dw2)
  finally show ?thesis .
qed

lemma rx_search_at:
  "rx pat (prev_after p pre) t \<noteq> None \<Longrightarrow> rx_search pat p (pre @ t) \<noteq> None"
proof (induction pre arbitrary: p)
  case Nil
  then show ?case by (cases t) (auto split: option.splits)
next
  case (Cons c cs)
  then show ?case by (auto split: option.splits)
qed

lemma test_at: "(\<And>p. rx pat p t \<noteq> None) \<Longrightarrow> test pat (pre @ t)"
  unfolding test_def by (rule rx_search_at)

lemma rx_Many0_skip:
  assumes "list_all (in_cls k) ws" and "\<And>p. rx as p t \<noteq> None"
  shows "rx (Many0 k # as) p (ws @ t) \<noteq> None"
  using assms(1)
proof (induction ws arbitrary: p)
  case Nil
  show ?case
  proof (cases t)
    case Nil
    with assms(2) [of p] show ?thesis by simp
  next
    case (Cons x xs)
    with assms(2) [of p] show ?thesis by (auto split: option.splits)
  qed
next
  case (Cons c cs)
  then have c: "in_cls k c" and "rx (Many0 k # as) (Some c) (cs @ t) \<noteq> None"
    by simp_all
  then obtain r where "rx (Many0 k # as) (Some c) (cs @ t) = Some r"
    by blast
  with c show ?case by simp
qed

lemma rx_Many1_skip:
  assumes "ws \<noteq> []" and "list_all (in_cls k) ws" and "\<And>p. rx as p t \<noteq> None"
  shows "rx (Many1 k # as) p (ws @ t) \<noteq> None"
proof -
  from assms(1) obtain c cs where ws: "ws = c # cs" by (cases ws) auto
  with assms(2) have "in_cls k c" "list_all (in_cls k) cs" by simp_all
  with rx_Many0_skip [OF this(2) assms(3), of "Some c"] show ?thesis
    by (simp add: ws)
qed

lemma rx_lits_skip:
  assumes "ci_equal V v" and "\<And>p. rx as p t \<noteq> None"
  shows "rx (lits v @ as) p (V @ t) \<noteq> None"
  using assms by (simp add: rx_lits)

lemma rx_Lit_skip:
  assumes "\<And>p. rx as p t \<noteq> None"
  shows "rx (Lit c # as) p (c # t) \<noteq> None"
  using assms by simp

lemma in_cls_Space: "in_cls Space = is_space"
  by (rule ext) simp

lemma stacked_matches:
  assumes "list_all is_space ws" and "ci_equal V verb" and "is_space sp"
  shows "rx (stacked verb) p ('';'' @ ws @ V @ [sp] @ post) \<noteq> None"
proof -
  have "rx [Many1 Space] p ([sp] @ post) \<noteq> None" for p
    using assms(3) by (intro rx_Many1_skip) (simp_all add: in_cls_Space)
  then have "rx (lits verb @ [Many1 Space]) p (V @ [sp] @ post) \<noteq> None" for p
    using assms(2) by (intro rx_lits_skip)
  then have "rx (Many0 Space # lits verb @ [Many1 Space]) p (ws @ V @ [sp] @ post) \<noteq> None" for p
    using assms(1) by (intro rx_Many0_skip) (simp_all add: in_cls_Space)
  then show ?thesis
    by (simp add: stacked_def)
qed

lemma union_select_matches:
  assumes "ci_equal u ''union''" and "ws \<noteq> []" and "list_all is_space ws"
    and "ci_equal s ''select''"
  shows "rx (lits ''union'' @ Many1 Space # lits ''select'') p (u @ ws @ s @ post) \<noteq> None"
proof -
  have "rx (lits ''select'') p (s @ post) \<noteq> None" for p
    using rx_lits [OF assms(4), of "[]" p post] by simp
  then have "rx (Many1 Space # lits ''select'') p (ws @ s @ post) \<noteq> None" for p
    using assms(2,3) by (intro rx_Many1_skip) (simp_all add: in_cls_Space)
  then show ?thesis
    using assms(1) by (intro rx_lits_skip)
qed

lemma tautology_matches:
  assumes "list_all is_space ws1" and "ci_equal kw ''or''" and "ws2 \<noteq> []"
    and "list_all is_space ws2" and "list_all is_space ws3" and "list_all is_space ws4"
  shows "rx (tautology q) p ([q] @ ws1 @ kw @ ws2 @ [q, CHR ''1'', q] @ ws3 @ ''='' @ ws4
                              @ [q, CHR ''1''] @ post) \<noteq> None"
proof -
  have "rx [Lit q, Lit (CHR ''1'')] p ([q, CHR ''1''] @ post) \<noteq> None" for p
    by simp
  then have "rx (Many0 Space # [Lit q, Lit (CHR ''1'')]) p (ws4 @ [q, CHR ''1''] @ post) \<noteq> None"
    for p
    using assms(6) by (intro rx_Many0_skip) (simp_all add: in_cls_Space)
  then have "rx (Lit (CHR ''='') # Many0 Space # [Lit q, Lit (CHR ''1'')]) p
               (''='' @ ws4 @ [q, CHR ''1''] @ post) \<noteq> None" for p
    by simp
  then have "rx (Many0 Space # Lit (CHR ''='') # Many0 Space # [Lit q, Lit (CHR ''1'')]) p
               (ws3 @ ''='' @ ws4 @ [q, CHR ''1''] @ post) \<noteq> None" for p
    using assms(5) by (intro rx_Many0_skip) (simp_all add: in_cls_Space)
  then have "rx (Lit q # Lit (CHR ''1'') # Lit q # Many0 Space # Lit (CHR ''='') # Many0 Space
                   # [Lit q, Lit (CHR ''1'')]) p
               ([q, CHR ''1'', q] @ ws3 @ ''='' @ ws4 @ [q, CHR ''1''] @ post) \<noteq> None" for p
    by simp
  then have "rx (Many1 Space # Lit q # Lit (CHR ''1'') # Lit q # Many0 Space # Lit (CHR ''='')
                   # Many0 Space # [Lit q, Lit (CHR ''1'')]) p
               (ws2 @ [q, CHR ''1'', q] @ ws3 @ ''='' @ ws4 @ [q, CHR ''1''] @ post) \<noteq> None" for p
    using assms(3,4) by (intro rx_Many1_skip) (simp_all add: in_cls_Space)
  then have "rx (lits ''or'' @ Many1 Space # Lit q # Lit (CHR ''1'') # Lit q # Many0 Space
                   # Lit (CHR ''='') # Many0 Space # [Lit q, Lit (CHR ''1'')]) p
               (kw @ ws2 @ [q, CHR ''1'', q] @ ws3 @ ''='' @ ws4 @ [q, CHR ''1''] @ post) \<noteq> None"
    for p
    using assms(2) by (intro rx_lits_skip)
  then have "rx (Many0 Space # lits ''or'' @ Many1 Space # Lit q # Lit (CHR ''1'') # Lit q
                   # Many0 Space # Lit (CHR ''='') # Many0 Space # [Lit q, Lit (CHR ''1'')]) p
               (ws1 @ kw @ ws2 @ [q, CHR ''1'', q] @ ws3 @ ''='' @ ws4 @ [q, CHR ''1''] @ post)
             \<noteq> None" for p
    using assms(1) by (intro rx_Many0_skip) (simp_all add: in_cls_Space)
  then show ?thesis
    by (simp add: tautology_def)
qed

section \<open>Lemmas on the validation loops\<close>

lemma scanPatterns_Some:
  "scanPatterns pats sql = Some r \<Longrightarrow>
     \<exists>pat\<in>set pats. test pat sql
        \<and> r = \<lparr>valid = False,
                error = Some (''Potentially dangerous SQL pattern detected: '' @ source pat)\<rparr>"
  by (induction pats) (auto split: if_splits)

lemma scanPatterns_None: "scanPatterns pats sql = None \<longleftrightarrow> (\<forall>pat\<in>set pats. \<not> test pat sql)"
  by (induction pats) auto

lemma scanPatterns_find:
  "scanPatterns pats sql =
     map_option
       (\<lambda>pattern. \<lparr>valid = False,
                    error = Some (''Potentially dangerous SQL pattern detected: ''
                                    @ source pattern)\<rparr>)
       (find (\<lambda>pattern. test pattern sql) pats)"
  by (induction pats) simp_all

lemma word_at_iff: "word_at b \<longleftrightarrow> b \<noteq> [] \<and> is_word (hd b)"
  by (cases b) (simp_all add: word_at_def)

lemma takeWhile_exact:
  "\<forall>c\<in>set a. P c \<Longrightarrow> b = [] \<or> \<not> P (hd b) \<Longrightarrow> takeWhile P (a @ b) = a"
  by (cases b) (auto simp: takeWhile_append2)

lemma split_before_tail:
  assumes "pre @ us = A @ B" and "pre \<noteq> []" and "\<not> P (last pre)" and "\<forall>c\<in>set B. P c"
  shows "\<exists>A2. A = pre @ A2 \<and> us = A2 @ B"
proof -
  from assms(1) consider vs where "pre = A @ vs" "vs @ us = B"
    | vs where "pre @ vs = A" "us = vs @ B"
    by (auto simp: append_eq_append_conv2)
  then show ?thesis
  proof cases
    case 1
    show ?thesis
    proof (cases "vs = []")
      case True
      with 1 show ?thesis by simp
    next
      case False
      with 1 have "last pre \<in> set B" by auto
      with assms(3,4) show ?thesis by blast
    qed
  next
    case 2
    then show ?thesis by blast
  qed
qed

lemma split_after_head:
  assumes "pre @ A2 = F @ ws" and "pre \<noteq> []" and "\<not> P (last pre)" and "\<forall>c\<in>set F. P c"
  shows "\<exists>vs. pre = F @ vs \<and> ws = vs @ A2"
proof -
  from assms(1) consider vs where "pre = F @ vs" "vs @ A2 = ws"
    | vs where "pre @ vs = F" "A2 = vs @ ws"
    by (auto simp: append_eq_append_conv2)
  then show ?thesis
  proof cases
    case 1
    then show ?thesis by blast
  next
    case 2
    with assms(2) have "last pre \<in> set F" by auto
    with assms(3,4) show ?thesis by blast
  qed
qed

lemma toLowerCase_Nil_iff [simp]: "toLowerCase s = [] \<longleftrightarrow> s = []"
  by (simp add: toLowerCase_def)

lemma from_names_Cons: "from_names (Some c) s w \<Longrightarrow> from_names p (c # s) w"
  unfolding from_names_def list_all_iff
proof (elim exE conjE)
  fix pre F ws post
  assume "s = pre @ F @ ws @ w @ post" "\<not> word_before (prev_after (Some c) pre)"
    "ci_equal F ''from''" "ws \<noteq> []" "\<forall>c\<in>set ws. is_space c" "w \<noteq> []"
    "\<forall>c\<in>set w. is_word c" "\<not> word_at post"
  then show "\<exists>pre F ws post. c # s = pre @ F @ ws @ w @ post
       \<and> \<not> word_before (prev_after p pre) \<and> ci_equal F ''from'' \<and> ws \<noteq> []
       \<and> (\<forall>c\<in>set ws. is_space c) \<and> w \<noteq> [] \<and> (\<forall>c\<in>set w. is_word c) \<and> \<not> word_at post"
    by (intro exI [of _ "c # pre"] exI [of _ F] exI [of _ ws] exI [of _ post]) simp
qed

lemma from_names_append:
  "from_names (prev_after p M) e w \<Longrightarrow> from_names p (M @ e) w"
  by (induction M arbitrary: p) (auto intro: from_names_Cons)

lemma table_rejected_Cons:
  "table_rejected allowed (Some c) s r \<Longrightarrow> table_rejected allowed p (c # s) r"
  unfolding table_rejected_def by (blast intro: from_names_Cons)

lemma table_rejected_append:
  "table_rejected allowed (prev_after p M) e r \<Longrightarrow> table_rejected allowed p (M @ e) r"
  unfolding table_rejected_def by (blast intro: from_names_append)

lemma tableLoop_step_None:
  "rx tablePattern p (c # s) = None \<Longrightarrow> tableLoop allowed p (c # s) = tableLoop allowed (Some c) s"
  by (subst tableLoop.simps, subst (2) tableLoop.simps) simp

lemma tableLoop_step_Some:
  "rx tablePattern p s = Some (m, e, q) \<Longrightarrow>
     tableLoop allowed p s =
       (let tableName = toLowerCase (take (length m - length e) m)
        in if tableName \<noteq> [] \<and> tableName \<notin> set allowed
           then \<lparr>valid = False, error = Some (''Table not in allowed list: '' @ tableName)\<rparr>
           else tableLoop allowed q e)"
  by (subst tableLoop.simps, cases s) simp_all

lemma tableLoop_from_names:
  assumes occ: "from_names p s w"
    and bad: "toLowerCase w \<notin> set allowed"
    and "from": "''from'' \<notin> set allowed"
  shows "table_rejected allowed p s (tableLoop allowed p s)"
proof -
  from occ obtain pre F ws post where s: "s = pre @ F @ ws @ w @ post"
    and pre: "\<not> word_before (prev_after p pre)"
    and F: "ci_equal F ''from''"
    and ws: "ws \<noteq> []" "\<forall>c\<in>set ws. is_space c"
    and w: "w \<noteq> []" "\<forall>c\<in>set w. is_word c"
    and post: "\<not> word_at post"
    unfolding from_names_def list_all_iff by blast
  define occ where "occ = F @ ws @ w @ post"
  have Fw: "\<forall>c\<in>set F. is_word c"
    using F by (rule ci_equal_word) (simp add: is_word_def)
  from F have Fne: "F \<noteq> []" by (auto simp: ci_equal_def)
  from ws have hdws: "\<not> is_word (hd ws)"
    by (cases ws) (auto dest: space_not_word)
  have tw_occ: "takeWhile is_word occ = F"
    unfolding occ_def using Fw hdws ws(1) by (intro takeWhile_exact) auto
  have occ_word: "word_at occ"
    using Fw Fne by (cases F) (auto simp: occ_def word_at_def)
  have here: "from_names p' occ w" if "\<not> word_before p'" for p'
    unfolding from_names_def list_all_iff occ_def using that F ws w post
    by (intro exI [of _ "[]"] exI [of _ F] exI [of _ ws] exI [of _ post]) simp
  have "table_rejected allowed p (pre @ occ) (tableLoop allowed p (pre @ occ))"
    using pre
  proof (induction "length pre" arbitrary: pre p rule: less_induct)
    case less
    show ?case
    proof (cases "rx tablePattern p (pre @ occ)")
      case None
      show ?thesis
      proof (cases pre)
        case Nil
        with less.prems have "\<not> word_before p" by simp
        from rx_tablePattern_SomeI [OF F this ws w post] None Nil show ?thesis
          by (simp add: occ_def)
      next
        case (Cons c cs)
        with None have "tableLoop allowed p (c # cs @ occ) = tableLoop allowed (Some c) (cs @ occ)"
          by (intro tableLoop_step_None) simp
        moreover have "table_rejected allowed (Some c) (cs @ occ)
                         (tableLoop allowed (Some c) (cs @ occ))"
          using less.prems by (intro less.hyps) (simp_all add: Cons)
        ultimately show ?thesis
          by (simp add: Cons table_rejected_Cons)
      qed
    next
      case (Some r)
      then obtain m e q where r: "rx tablePattern p (pre @ occ) = Some (m, e, q)"
        by (cases r) auto
      from rx_tablePattern_SomeD [OF r] obtain F' ws' w' where
        eq: "pre @ occ = F' @ ws' @ w' @ e" and m: "m = w' @ e" and F': "ci_equal F' ''from''"
        and p: "\<not> word_before p"
        and ws': "ws' \<noteq> []" "\<forall>c\<in>set ws'. is_space c"
        and w': "w' \<noteq> []" "\<forall>c\<in>set w'. is_word c"
        and e: "\<not> word_at e" and q: "q = Some (last w')"
        by blast
      have F'w: "\<forall>c\<in>set F'. is_word c"
        using F' by (rule ci_equal_word) (simp add: is_word_def)
      have name: "take (length m - length e) m = w'"
        by (simp add: m)
      have step: "tableLoop allowed p (pre @ occ) =
          (if toLowerCase w' \<notin> set allowed
           then \<lparr>valid = False, error = Some (''Table not in allowed list: '' @ toLowerCase w')\<rparr>
           else tableLoop allowed q e)"
        using tableLoop_step_Some [OF r, of allowed] w'(1) by (simp add: name Let_def)
      have matched: "from_names p (pre @ occ) w'"
        unfolding from_names_def list_all_iff eq using p F' ws' w' e
        by (intro exI [of _ "[]"] exI [of _ F'] exI [of _ ws'] exI [of _ e]) simp
      show ?thesis
      proof (cases "toLowerCase w' \<in> set allowed")
        case False
        with step matched show ?thesis
          by (auto simp: table_rejected_def)
      next
        case True
        define M where "M = F' @ ws' @ w'"
        have q_M: "q = prev_after p M"
          using w'(1) by (simp add: M_def q prev_after_def)
        from eq have "pre @ occ = M @ e" by (simp add: M_def)
        then have "(\<exists>us. pre = M @ us \<and> us @ occ = e) \<or> (\<exists>us. pre @ us = M \<and> occ = us @ e)"
          unfolding append_eq_append_conv2 by blast
        then consider us where "pre = M @ us" "us @ occ = e"
          | us where "pre @ us = M" "occ = us @ e"
          by blast
        then show ?thesis
        proof cases
          case 1
          have "prev_after q us = prev_after p pre"
            using 1 by (simp add: q_M)
          with less.prems have "\<not> word_before (prev_after q us)" by simp
          moreover from 1 w'(1) have "length us < length pre" by (simp add: M_def)
          ultimately have "table_rejected allowed q (us @ occ) (tableLoop allowed q (us @ occ))"
            by (intro less.hyps)
          then have "table_rejected allowed p (M @ us @ occ) (tableLoop allowed q (us @ occ))"
            unfolding q_M by (rule table_rejected_append)
          with step True 1 show ?thesis
            by simp
        next
          case 2
          show ?thesis
          proof (cases "pre = []")
            case True
            with 2 have "occ = M @ e" by simp
            then have "occ = F' @ ws' @ w' @ e" by (simp add: M_def)
            moreover have "takeWhile is_word (F' @ ws' @ w' @ e) = F'"
              using F'w ws' by (intro takeWhile_exact) (auto dest: space_not_word)
            ultimately have "F' = F" using tw_occ by simp
            with \<open>occ = F' @ ws' @ w' @ e\<close> have ws_eq: "ws @ w @ post = ws' @ w' @ e"
              by (simp add: occ_def)
            have "takeWhile is_space (ws @ w @ post) = ws"
              using ws w by (intro takeWhile_exact) (auto dest: space_not_word)
            moreover have "takeWhile is_space (ws' @ w' @ e) = ws'"
              using ws' w' by (intro takeWhile_exact) (auto dest: space_not_word)
            ultimately have "ws' = ws" using ws_eq by simp
            with ws_eq have w_eq: "w @ post = w' @ e" by simp
            have "takeWhile is_word (w @ post) = w"
              using w post by (intro takeWhile_exact) (auto simp: word_at_iff)
            moreover have "takeWhile is_word (w' @ e) = w'"
              using w' e by (intro takeWhile_exact) (auto simp: word_at_iff)
            ultimately have "w' = w" using w_eq by simp
            with \<open>toLowerCase w' \<in> set allowed\<close> bad show ?thesis by simp
          next
            case False
            then have pre_ne: "pre \<noteq> []" .
            with less.prems have last_pre: "\<not> is_word (last pre)"
              by (simp add: prev_after_def word_before_def)
            from 2(1) have "pre @ us = (F' @ ws') @ w'" by (simp add: M_def)
            from split_before_tail [OF this pre_ne last_pre w'(2)]
            obtain A2 where A2: "F' @ ws' = pre @ A2" "us = A2 @ w'" by blast
            from split_after_head [OF A2(1) [symmetric] pre_ne last_pre F'w]
            obtain vs where "pre = F' @ vs" "ws' = vs @ A2" by blast
            with ws'(2) have A2s: "\<forall>c\<in>set A2. is_space c" by simp
            have "A2 = []"
            proof (rule ccontr)
              assume "A2 \<noteq> []"
              with 2(2) A2(2) have "hd occ = hd A2" by simp
              moreover from \<open>A2 \<noteq> []\<close> A2s have "is_space (hd A2)" by simp
              ultimately show False
                using occ_word by (auto simp: word_at_iff dest: space_not_word)
            qed
            with A2(2) 2(2) have "occ = w' @ e" by simp
            moreover from e have "e = [] \<or> \<not> is_word (hd e)"
              by (simp add: word_at_iff)
            ultimately have "takeWhile is_word occ = w'"
              using w'(2) by (simp only: takeWhile_exact)
            with tw_occ have "w' = F" by simp
            with True toLowerCase_ci_from [OF F] "from" show ?thesis by simp
          qed
        qed
      qed
    qed
  qed
  then show ?thesis by (simp add: s occ_def)
qed

section \<open>Lemmas on the generated statement\<close>

lemma generateSQL_clauses:
  "generateSQL JSON_stringify query =
     (case timeClause query of
        Inl e \<Rightarrow> Inl e
      | Inr tc \<Rightarrow>
          Inr (''SELECT '' @ selectClause query @ '' FROM spatial_data WHERE 1=1'' @ tc
                 @ geometryClause JSON_stringify query @ orderClause query @ limitClause query))"
proof -
  have opt: "(case x of Some v \<Rightarrow> s @ f v | None \<Rightarrow> s) = s @ (case x of Some v \<Rightarrow> f v | None \<Rightarrow> [])"
    for x :: "'x option" and s :: string and f
    by (cases x) simp_all
  have opt': "(case x of Some v \<Rightarrow> if c v then s @ f v else s | None \<Rightarrow> s)
                = s @ (case x of Some v \<Rightarrow> if c v then f v else [] | None \<Rightarrow> [])"
    for x :: "'x option" and s :: string and f c
    by (cases x) simp_all
  have sel: "(case x of Some v \<Rightarrow> if c v then s @ f v else s @ d | None \<Rightarrow> s @ d)
                = s @ (case x of Some v \<Rightarrow> if c v then f v else d | None \<Rightarrow> d)"
    for x :: "'x option" and s d :: string and f c
    by (cases x) simp_all
  have eq: "generateSQL JSON_stringify query =
      (case (case timeRange query of
               None \<Rightarrow> Inr ((''SELECT '' @ selectClause query) @ '' FROM spatial_data WHERE 1=1'')
             | Some (start, finish) \<Rightarrow>
                 (case toISOString start of
                    Inl e \<Rightarrow> Inl e
                  | Inr a \<Rightarrow>
                     (case toISOString finish of
                        Inl e \<Rightarrow> Inl e
                      | Inr b \<Rightarrow>
                          Inr (((''SELECT '' @ selectClause query) @ '' FROM spatial_data WHERE 1=1'')
                                 @ '' AND timestamp BETWEEN '' @ [CHR 0x27] @ a
                                 @ [CHR 0x27] @ '' AND '' @ [CHR 0x27] @ b @ [CHR 0x27]))))
       of Inl e \<Rightarrow> Inl e
        | Inr sql \<Rightarrow> Inr (((sql @ geometryClause JSON_stringify query) @ orderClause query)
                           @ limitClause query))"
    unfolding generateSQL_def selectClause_def geometryClause_def orderClause_def
      limitClause_def Let_def opt opt' sel ..
  show ?thesis
  proof (cases "timeRange query")
    case None
    then show ?thesis
      unfolding eq timeClause_def by (simp only: option.case sum.case append_assoc append_Nil)
  next
    case (Some r)
    obtain start finish where r: "r = (start, finish)" by (cases r)
    show ?thesis
    proof (cases "toISOString start")
      case (Inl e)
      with Some r show ?thesis
        unfolding eq timeClause_def by (simp only: option.case prod.case sum.case)
    next
      case a: (Inr a)
      show ?thesis
      proof (cases "toISOString finish")
        case (Inl e)
        with Some r a show ?thesis
          unfolding eq timeClause_def by (simp only: option.case prod.case sum.case)
      next
        case (Inr b)
        with Some r a show ?thesis
          unfolding eq timeClause_def
          by (simp only: option.case prod.case sum.case append_assoc)
      qed
    qed
  qed
qed

lemma ci_FROM: "ci_equal ''FROM'' ''from''"
  by code_simp

lemma lower_spatial_data: "toLowerCase ''spatial_data'' = ''spatial_data''"
  by (simp add: toLowerCase_def)

section \<open>Lemmas on the retry loop\<close>





















section \<open>Properties of device command validation\<close>

text \<open>
  \<^verbatim>\<open>validateDeviceCommand\<close> has no confirmation argument, so every call is a
  submission without a confirmation flag. A \<^verbatim>\<open>takeoff\<close>, which is in the default
  confirmation set, passes it.
\<close>

theorem validateDeviceCommand_takeoff_without_flag:
  "''takeoff'' \<in> set DEFAULT_CONFIRM_ACTIONS
   \<and> validateDeviceCommand ''takeoff'' None = \<lparr>valid = True, error = None\<rparr>"
  by (simp add: validateDeviceCommand_def DEFAULT_CONFIRM_ACTIONS_def validActions_def)

text \<open>
  Claim C1, as the code has it: for every action of the default confirmation set
  (takeoff, land, return_home, stop), validation depends on the allow-list alone. With no
  allow-list, or with one that holds the action, the command is valid; otherwise it is
  rejected as not allowed. The confirmation set is not consulted.
\<close>

theorem validateDeviceCommand_confirm_actions:
  assumes "action \<in> set DEFAULT_CONFIRM_ACTIONS"
  shows "validateDeviceCommand action allowedActions =
           (case allowedActions of
              None \<Rightarrow> \<lparr>valid = True, error = None\<rparr>
            | Some allowed \<Rightarrow>
                if action \<in> set allowed then \<lparr>valid = True, error = None\<rparr>
                else \<lparr>valid = False, error = Some (''Action not allowed: '' @ action)\<rparr>)"
proof -
  from assms have "action \<in> set validActions"
    by (auto simp: DEFAULT_CONFIRM_ACTIONS_def validActions_def)
  then show ?thesis
    by (simp add: validateDeviceCommand_def split: option.split)
qed

theorem validateDeviceCommand_confirm_actions_witness:
  "''land'' \<in> set DEFAULT_CONFIRM_ACTIONS
   \<and> validateDeviceCommand ''land'' (Some [''land'', ''stop'']) = \<lparr>valid = True, error = None\<rparr>
   \<and> validateDeviceCommand ''land'' None = \<lparr>valid = True, error = None\<rparr>
   \<and> validateDeviceCommand ''land'' (Some [''pause''])
       = \<lparr>valid = False, error = Some ''Action not allowed: land''\<rparr>"
proof -
  have h: "''land'' \<in> set DEFAULT_CONFIRM_ACTIONS"
    by (simp add: DEFAULT_CONFIRM_ACTIONS_def)
  show ?thesis
    using h validateDeviceCommand_confirm_actions [OF h, of "Some [''land'', ''stop'']"]
      validateDeviceCommand_confirm_actions [OF h, of None]
      validateDeviceCommand_confirm_actions [OF h, of "Some [''pause'']"]
    by simp
qed

section \<open>Properties of stop detection\<close>

text \<open>
  Claim C9, on three inputs with a speed threshold of 0.5 m/s and a minimum duration of
  60 s. A run of stopped points spanning 60 s and closed by a moving point is reported by
  its first index; the same run spanning 59 s is not. A run spanning 60 s that lasts to
  the end of the input is a maximal run that meets both thresholds, and is not reported.
\<close>

theorem detectStopPoints_runs_at_thresholds:
  "detectStopPoints [sample 0 (Some 0), sample 30000 None, sample 60000 (Some (1/2)),
                     sample 61000 (Some 3)] (1/2) 60 = [0]
   \<and> detectStopPoints [sample 0 (Some 0), sample 30000 None, sample 59000 (Some (1/2)),
                     sample 61000 (Some 3)] (1/2) 60 = []
   \<and> detectStopPoints [sample 0 (Some 3), sample 1000 (Some 0), sample 31000 None,
                     sample 61000 (Some (1/2))] (1/2) 60 = []"
  by (simp add: detectStopPoints_def stopStep_def at_index_def sample_def)

text \<open>
  Claim C10, on a sequence of two stopped points 60 s apart: the run is still open at the
  end of the input and nothing is reported. One moving point appended closes the run, and
  index 0 is reported.
\<close>

theorem detectStopPoints_trailing_run_dropped:
  "detectStopPoints [sample 0 (Some 0), sample 60000 (Some 0)] (1/2) 60 = []
   \<and> detectStopPoints [sample 0 (Some 0), sample 60000 (Some 0), sample 60001 (Some 1)]
        (1/2) 60 = [0]"
  by (simp add: detectStopPoints_def stopStep_def at_index_def sample_def)

section \<open>Properties of query compilation\<close>

text \<open>
  Claim C2, on one query: \<^verbatim>\<open>generateSQL\<close> returns the statement text alone, with the
  two time bounds, the order-by field and the limit written into it. The order-by field
  here carries a second statement, which becomes part of the text.
\<close>

theorem generateSQL_interpolates_literals:
  "generateSQL (\<lambda>g. g)
     \<lparr>type = bbox, timeRange = Some (Date 0, Date 1000), geometry = None,
      select = Some [''id''],
      orderBy = Some [\<lparr>field = ''id; DROP TABLE drone_trajectory --'', direction = asc\<rparr>],
      limit = Some (Integer 5)\<rparr>
   = Inr (''SELECT id FROM spatial_data WHERE 1=1 AND timestamp BETWEEN ''
            @ [CHR 0x27] @ ''1970-01-01T00:00:00.000Z'' @ [CHR 0x27] @ '' AND '' @ [CHR 0x27]
            @ ''1970-01-01T00:00:01.000Z'' @ [CHR 0x27]
            @ '' ORDER BY id; DROP TABLE drone_trajectory -- ASC LIMIT 5'')"
  by code_simp

text \<open>
  Claim C3: every statement that \<^verbatim>\<open>generateSQL\<close> returns is rejected by
  \<^verbatim>\<open>validateSQLQuery\<close> under the default table whitelist. The statement always holds
  \<^verbatim>\<open>FROM spatial_data\<close>, and \<^verbatim>\<open>spatial_data\<close> is not one of the six default tables.
  This holds whatever the serialisation of the geometry and the other fields hold.
\<close>

theorem generateSQL_fails_validation:
  assumes "generateSQL JSON_stringify query = Inr sql"
  shows "\<not> valid (validateSQLQuery sql DEFAULT_ALLOWED_TABLES)
         \<and> (\<exists>pre post. sql = pre @ '' FROM spatial_data'' @ post)
         \<and> ''spatial_data'' \<notin> set DEFAULT_ALLOWED_TABLES"
proof -
  from assms obtain tc where
    sql: "sql = ''SELECT '' @ selectClause query @ '' FROM spatial_data WHERE 1=1'' @ tc
                 @ geometryClause JSON_stringify query @ orderClause query @ limitClause query"
    by (auto simp: generateSQL_clauses split: sum.splits)
  define pre where "pre = ''SELECT '' @ selectClause query @ '' ''"
  define post where "post = '' WHERE 1=1'' @ tc
                 @ geometryClause JSON_stringify query @ orderClause query @ limitClause query"
  have sql': "sql = pre @ ''FROM'' @ '' '' @ ''spatial_data'' @ post"
    by (simp add: sql pre_def post_def)
  have sp: "'' '' \<noteq> [] \<and> (\<forall>c\<in>set '' ''. is_space c)" by (simp add: is_space_def)
  have wd: "''spatial_data'' \<noteq> [] \<and> (\<forall>c\<in>set ''spatial_data''. is_word c)"
    by (simp add: is_word_def)
  have po: "\<not> word_at post" by (simp add: post_def word_at_def is_word_def)
  have pr: "\<not> word_before (prev_after None pre)"
    by (simp add: pre_def prev_after_def word_before_def is_word_def)
  have "from_names None sql ''spatial_data''"
    unfolding from_names_def list_all_iff using sql' pr ci_FROM sp wd po by blast
  moreover have "toLowerCase ''spatial_data'' \<notin> set DEFAULT_ALLOWED_TABLES"
    by (simp add: lower_spatial_data DEFAULT_ALLOWED_TABLES_def)
  moreover have "''from'' \<notin> set DEFAULT_ALLOWED_TABLES"
    by (simp add: DEFAULT_ALLOWED_TABLES_def)
  ultimately have "table_rejected DEFAULT_ALLOWED_TABLES None sql
                     (tableLoop DEFAULT_ALLOWED_TABLES None sql)"
    by (rule tableLoop_from_names)
  then have "\<not> valid (tableLoop DEFAULT_ALLOWED_TABLES None sql)"
    by (auto simp: table_rejected_def)
  moreover have "\<not> valid r" if "scanPatterns dangerousPatterns sql = Some r" for r
    using scanPatterns_Some [OF that] by auto
  ultimately have "\<not> valid (validateSQLQuery sql DEFAULT_ALLOWED_TABLES)"
    by (simp add: validateSQLQuery_def split: option.split)
  moreover have "\<exists>pre post. sql = pre @ '' FROM spatial_data'' @ post"
    unfolding sql by (intro exI [of _ "''SELECT '' @ selectClause query"] exI) simp
  moreover have "''spatial_data'' \<notin> set DEFAULT_ALLOWED_TABLES"
    by (simp add: DEFAULT_ALLOWED_TABLES_def)
  ultimately show ?thesis by blast
qed

theorem generateSQL_fails_validation_witness:
  "generateSQL (\<lambda>g. g)
     \<lparr>type = bbox, timeRange = Some (Date 0, Date 1000), geometry = Some ''{}'',
      select = Some [''id'', ''geom''],
      orderBy = Some [\<lparr>field = ''timestamp'', direction = desc\<rparr>], limit = Some (Integer 10)\<rparr>
     = Inr (''SELECT id, geom FROM spatial_data WHERE 1=1 AND timestamp BETWEEN ''
              @ [CHR 0x27] @ ''1970-01-01T00:00:00.000Z'' @ [CHR 0x27] @ '' AND '' @ [CHR 0x27]
              @ ''1970-01-01T00:00:01.000Z'' @ [CHR 0x27]
              @ '' AND ST_Within(geom, ST_GeomFromGeoJSON('' @ [CHR 0x27] @ ''{}'' @ [CHR 0x27]
              @ '')) ORDER BY timestamp DESC LIMIT 10'')
   \<and> \<not> valid (validateSQLQuery
              (''SELECT id, geom FROM spatial_data WHERE 1=1 AND timestamp BETWEEN ''
                 @ [CHR 0x27] @ ''1970-01-01T00:00:00.000Z'' @ [CHR 0x27] @ '' AND '' @ [CHR 0x27]
                 @ ''1970-01-01T00:00:01.000Z'' @ [CHR 0x27]
                 @ '' AND ST_Within(geom, ST_GeomFromGeoJSON('' @ [CHR 0x27] @ ''{}'' @ [CHR 0x27]
                 @ '')) ORDER BY timestamp DESC LIMIT 10'')
              DEFAULT_ALLOWED_TABLES)"
proof -
  have h: "generateSQL (\<lambda>g. g)
     \<lparr>type = bbox, timeRange = Some (Date 0, Date 1000), geometry = Some ''{}'',
      select = Some [''id'', ''geom''],
      orderBy = Some [\<lparr>field = ''timestamp'', direction = desc\<rparr>], limit = Some (Integer 10)\<rparr>
     = Inr (''SELECT id, geom FROM spatial_data WHERE 1=1 AND timestamp BETWEEN ''
              @ [CHR 0x27] @ ''1970-01-01T00:00:00.000Z'' @ [CHR 0x27] @ '' AND '' @ [CHR 0x27]
              @ ''1970-01-01T00:00:01.000Z'' @ [CHR 0x27]
              @ '' AND ST_Within(geom, ST_GeomFromGeoJSON('' @ [CHR 0x27] @ ''{}'' @ [CHR 0x27]
              @ '')) ORDER BY timestamp DESC LIMIT 10'')"
    by code_simp
  from generateSQL_fails_validation [OF h]
  have "\<not> valid (validateSQLQuery
              (''SELECT id, geom FROM spatial_data WHERE 1=1 AND timestamp BETWEEN ''
                 @ [CHR 0x27] @ ''1970-01-01T00:00:00.000Z'' @ [CHR 0x27] @ '' AND '' @ [CHR 0x27]
                 @ ''1970-01-01T00:00:01.000Z'' @ [CHR 0x27]
                 @ '' AND ST_Within(geom, ST_GeomFromGeoJSON('' @ [CHR 0x27] @ ''{}'' @ [CHR 0x27]
                 @ '')) ORDER BY timestamp DESC LIMIT 10'')
              DEFAULT_ALLOWED_TABLES)"
    by (rule conjunct1)
  with h show ?thesis by (rule conjI)
qed

text \<open>
  A time range whose start is one second after its end compiles to a statement; nothing
  fails.
\<close>

theorem generateSQL_reversed_range_emitted:
  "generateSQL (\<lambda>g. g)
     \<lparr>type = bbox, timeRange = Some (Date 1000, Date 0), geometry = None,
      select = None, orderBy = None, limit = None\<rparr>
   = Inr (''SELECT * FROM spatial_data WHERE 1=1 AND timestamp BETWEEN ''
            @ [CHR 0x27] @ ''1970-01-01T00:00:01.000Z'' @ [CHR 0x27] @ '' AND '' @ [CHR 0x27]
            @ ''1970-01-01T00:00:00.000Z'' @ [CHR 0x27])"
  by code_simp

text \<open>
  Claim C4, as the code has it: for every query with a time range of two valid dates, in
  whichever order, \<^verbatim>\<open>generateSQL\<close> returns a statement with the predicate
  \<^verbatim>\<open>AND timestamp BETWEEN '<start>' AND '<end>'\<close> on the two ISO strings as given. The
  bounds are not compared.
\<close>

theorem generateSQL_time_range_unchecked:
  assumes "timeRange query = Some (start, finish)"
    and "toISOString start = Inr a" and "toISOString finish = Inr b"
  shows "generateSQL JSON_stringify query =
           Inr (''SELECT '' @ selectClause query @ '' FROM spatial_data WHERE 1=1''
                  @ '' AND timestamp BETWEEN '' @ [CHR 0x27] @ a @ [CHR 0x27]
                  @ '' AND '' @ [CHR 0x27] @ b @ [CHR 0x27]
                  @ geometryClause JSON_stringify query @ orderClause query @ limitClause query)"
  using assms by (simp only: generateSQL_clauses timeClause_def option.case prod.case sum.case
                    append_assoc)

theorem generateSQL_time_range_unchecked_witness:
  "toISOString (Date 1000) = Inr ''1970-01-01T00:00:01.000Z''
   \<and> toISOString (Date 0) = Inr ''1970-01-01T00:00:00.000Z''
   \<and> generateSQL (\<lambda>g. g)
       \<lparr>type = bbox, timeRange = Some (Date 1000, Date 0), geometry = None,
        select = None, orderBy = None, limit = None\<rparr>
     = Inr (''SELECT * FROM spatial_data WHERE 1=1 AND timestamp BETWEEN ''
              @ [CHR 0x27] @ ''1970-01-01T00:00:01.000Z'' @ [CHR 0x27] @ '' AND '' @ [CHR 0x27]
              @ ''1970-01-01T00:00:00.000Z'' @ [CHR 0x27])"
proof -
  have a: "toISOString (Date 1000) = Inr ''1970-01-01T00:00:01.000Z''" by code_simp
  have b: "toISOString (Date 0) = Inr ''1970-01-01T00:00:00.000Z''" by code_simp
  have r: "timeRange \<lparr>type = bbox, timeRange = Some (Date 1000, Date 0), geometry = None,
        select = None, orderBy = None, limit = None\<rparr> = Some (Date 1000, Date 0)"
    by simp
  show ?thesis
    using a b generateSQL_time_range_unchecked [OF r a b, of "\<lambda>g :: string. g"]
    by (simp add: selectClause_def geometryClause_def orderClause_def limitClause_def)
qed

text \<open>
  A limit of 5000, above the default maximum of 1000 rows, compiles to \<^verbatim>\<open>LIMIT 5000\<close>;
  a query without a limit compiles to a statement without a \<^verbatim>\<open>LIMIT\<close> clause, and so
  does a query with the limit 0.
\<close>

theorem generateSQL_limit_not_clamped:
  "DEFAULT_MAX_ROWS = 1000
   \<and> generateSQL (\<lambda>g. g)
       \<lparr>type = bbox, timeRange = Some (Date 0, Date 1000), geometry = None,
        select = None, orderBy = None, limit = Some (Integer 5000)\<rparr>
     = Inr (''SELECT * FROM spatial_data WHERE 1=1 AND timestamp BETWEEN ''
              @ [CHR 0x27] @ ''1970-01-01T00:00:00.000Z'' @ [CHR 0x27] @ '' AND '' @ [CHR 0x27]
              @ ''1970-01-01T00:00:01.000Z'' @ [CHR 0x27] @ '' LIMIT 5000'')
   \<and> generateSQL (\<lambda>g. g)
       \<lparr>type = bbox, timeRange = None, geometry = None,
        select = None, orderBy = None, limit = None\<rparr>
     = Inr ''SELECT * FROM spatial_data WHERE 1=1''
   \<and> generateSQL (\<lambda>g. g)
       \<lparr>type = bbox, timeRange = None, geometry = None,
        select = None, orderBy = None, limit = Some (Integer 0)\<rparr>
     = Inr ''SELECT * FROM spatial_data WHERE 1=1''"
  by code_simp

text \<open>
  Claim C5, as the code has it: the statement of every query ends, after the order
  clause, with \<^verbatim>\<open>LIMIT n\<close> for the requested limit \<open>n\<close> itself when the limit is
  present and truthy (neither \<open>0\<close> nor \<open>NaN\<close>), and with nothing more when the limit
  is absent, \<open>0\<close> or \<open>NaN\<close>. No maximum takes part, and no default limit is added.
\<close>

theorem generateSQL_limit_as_requested:
  "generateSQL JSON_stringify query =
     (case timeClause query of
        Inl e \<Rightarrow> Inl e
      | Inr tc \<Rightarrow>
          Inr (''SELECT '' @ selectClause query @ '' FROM spatial_data WHERE 1=1'' @ tc
                 @ geometryClause JSON_stringify query @ orderClause query
                 @ (case limit query of
                      Some n \<Rightarrow> if ToBoolean n then '' LIMIT '' @ numberToString n else []
                    | None \<Rightarrow> [])))"
  by (simp only: generateSQL_clauses limitClause_def)

section \<open>Properties of query validation\<close>

text \<open>
  Statements of each of the four kinds that pass validation under the default
  whitelist: a bare \<^verbatim>\<open>DELETE\<close> or \<^verbatim>\<open>UPDATE\<close> on a whitelisted table (the patterns look
  for these verbs after a semicolon only); a second statement after a semicolon whose
  verb is not one of the six of the patterns; a tautology \<^verbatim>\<open>OR 1=1\<close> without quotes
  around the two numbers; and \<^verbatim>\<open>UNION ALL SELECT\<close>.
\<close>

theorem validateSQLQuery_accepts_bare_verbs:
  "validateSQLQuery ''DELETE FROM drone_trajectory'' DEFAULT_ALLOWED_TABLES
     = \<lparr>valid = True, error = None\<rparr>
   \<and> validateSQLQuery ''UPDATE drone_trajectory SET battery = 0'' DEFAULT_ALLOWED_TABLES
     = \<lparr>valid = True, error = None\<rparr>
   \<and> validateSQLQuery ''SELECT 1; CREATE TABLE t (x int)'' DEFAULT_ALLOWED_TABLES
     = \<lparr>valid = True, error = None\<rparr>
   \<and> validateSQLQuery ''SELECT 1 WHERE 1=0 OR 1=1'' DEFAULT_ALLOWED_TABLES
     = \<lparr>valid = True, error = None\<rparr>
   \<and> validateSQLQuery ''SELECT 1 UNION ALL SELECT 2'' DEFAULT_ALLOWED_TABLES
     = \<lparr>valid = True, error = None\<rparr>"
proof -
  have "validateSQLQuery ''DELETE FROM drone_trajectory'' DEFAULT_ALLOWED_TABLES
          = \<lparr>valid = True, error = None\<rparr>"
    by code_simp
  moreover
  have "validateSQLQuery ''UPDATE drone_trajectory SET battery = 0'' DEFAULT_ALLOWED_TABLES
          = \<lparr>valid = True, error = None\<rparr>"
    by code_simp
  moreover
  have "validateSQLQuery ''SELECT 1; CREATE TABLE t (x int)'' DEFAULT_ALLOWED_TABLES
          = \<lparr>valid = True, error = None\<rparr>"
    by code_simp
  moreover
  have "validateSQLQuery ''SELECT 1 WHERE 1=0 OR 1=1'' DEFAULT_ALLOWED_TABLES
          = \<lparr>valid = True, error = None\<rparr>"
    by code_simp
  moreover
  have "validateSQLQuery ''SELECT 1 UNION ALL SELECT 2'' DEFAULT_ALLOWED_TABLES
          = \<lparr>valid = True, error = None\<rparr>"
    by code_simp
  ultimately show ?thesis by (intro conjI)
qed

text \<open>
  Claim C6, as the code has it: every statement that holds a semicolon followed by
  optional whitespace, one of the verbs drop, delete, update, insert, truncate, alter and
  whitespace, or a quoted \<^verbatim>\<open>' or '1'='1\<close> tautology (single or double quotes), or
  \<^verbatim>\<open>union\<close>, whitespace, \<^verbatim>\<open>select\<close>, is rejected whatever the whitelist. The error
  names the source of the first pattern, in the order of the list, that matches the
  statement.
\<close>

theorem validateSQLQuery_rejects_forbidden:
  assumes "stacked_statement sql \<or> quoted_tautology sql \<or> union_select sql"
  shows "\<exists>pattern. find (\<lambda>p. test p sql) dangerousPatterns = Some pattern
           \<and> validateSQLQuery sql allowedTables =
               \<lparr>valid = False,
                error = Some (''Potentially dangerous SQL pattern detected: ''
                                @ source pattern)\<rparr>"
proof -
  have "\<exists>pat\<in>set dangerousPatterns. test pat sql"
    using assms
  proof (elim disjE)
    assume "stacked_statement sql"
    then obtain pre ws V sp post verb where
      sql: "sql = pre @ '';'' @ ws @ V @ [sp] @ post" and "list_all is_space ws"
      and verb: "verb \<in> set stackedVerbs" and "ci_equal V verb" and "is_space sp"
      unfolding stacked_statement_def by blast
    then have "test (stacked verb) sql"
      unfolding sql by (intro test_at stacked_matches)
    moreover from verb have "stacked verb \<in> set dangerousPatterns"
      by (auto simp: stackedVerbs_def dangerousPatterns_def)
    ultimately show ?thesis by blast
  next
    assume "quoted_tautology sql"
    then obtain q pre ws1 kw ws2 ws3 ws4 post where
      q: "q = CHR 0x27 \<or> q = CHR 0x22"
      and sql: "sql = pre @ [q] @ ws1 @ kw @ ws2 @ [q, CHR ''1'', q] @ ws3 @ ''='' @ ws4
                        @ [q, CHR ''1''] @ post"
      and *: "list_all is_space ws1" "ci_equal kw ''or''" "ws2 \<noteq> []" "list_all is_space ws2"
        "list_all is_space ws3" "list_all is_space ws4"
      unfolding quoted_tautology_def by blast
    from * have "test (tautology q) sql"
      unfolding sql by (intro test_at tautology_matches)
    moreover from q have "tautology q \<in> set dangerousPatterns"
      by (auto simp: dangerousPatterns_def)
    ultimately show ?thesis by blast
  next
    assume "union_select sql"
    then obtain pre u ws s post where
      sql: "sql = pre @ u @ ws @ s @ post"
      and *: "ci_equal u ''union''" "ws \<noteq> []" "list_all is_space ws" "ci_equal s ''select''"
      unfolding union_select_def by blast
    from * have "test (lits ''union'' @ Many1 Space # lits ''select'') sql"
      unfolding sql by (intro test_at union_select_matches)
    moreover have "lits ''union'' @ Many1 Space # lits ''select'' \<in> set dangerousPatterns"
      by (simp add: dangerousPatterns_def)
    ultimately show ?thesis by blast
  qed
  then obtain pattern where "find (\<lambda>p. test p sql) dangerousPatterns = Some pattern"
    by (cases "find (\<lambda>p. test p sql) dangerousPatterns") (auto simp: find_None_iff)
  then show ?thesis
    by (simp add: validateSQLQuery_def scanPatterns_find)
qed

theorem validateSQLQuery_rejects_forbidden_witness:
  "stacked_statement ''SELECT 1; DELETE FROM t; DROP TABLE t''
   \<and> (\<exists>pattern. find (\<lambda>p. test p ''SELECT 1; DELETE FROM t; DROP TABLE t'') dangerousPatterns = Some pattern
         \<and> validateSQLQuery ''SELECT 1; DELETE FROM t; DROP TABLE t'' DEFAULT_ALLOWED_TABLES =
             \<lparr>valid = False,
              error = Some (''Potentially dangerous SQL pattern detected: ''
                              @ source pattern)\<rparr>)
   \<and> find (\<lambda>p. test p ''SELECT 1; DELETE FROM t; DROP TABLE t'') dangerousPatterns = Some (stacked ''drop'')"
proof -
  have "''SELECT 1; DELETE FROM t; DROP TABLE t'' = ''SELECT 1'' @ '';'' @ '' '' @ ''DELETE'' @ [CHR '' ''] @ ''FROM t; DROP TABLE t''
        \<and> list_all is_space '' '' \<and> ''delete'' \<in> set stackedVerbs \<and> ci_equal ''DELETE'' ''delete''
        \<and> is_space (CHR '' '')"
    by code_simp
  then have h: "stacked_statement ''SELECT 1; DELETE FROM t; DROP TABLE t''"
    unfolding stacked_statement_def by blast
  then have "stacked_statement ''SELECT 1; DELETE FROM t; DROP TABLE t''
               \<or> quoted_tautology ''SELECT 1; DELETE FROM t; DROP TABLE t''
               \<or> union_select ''SELECT 1; DELETE FROM t; DROP TABLE t''"
    by (rule disjI1)
  note r = validateSQLQuery_rejects_forbidden [OF this, of DEFAULT_ALLOWED_TABLES]
  have f: "find (\<lambda>p. test p ''SELECT 1; DELETE FROM t; DROP TABLE t'') dangerousPatterns = Some (stacked ''drop'')"
    by code_simp
  from h r f show ?thesis by (intro conjI)
qed

text \<open>
  A statement that names the table \<^verbatim>\<open>secrets\<close>, outside the whitelist, and holds a
  forbidden pattern is rejected with an error that names the pattern, not the table. A
  statement that names it in double quotes after \<^verbatim>\<open>FROM\<close>, or in a \<^verbatim>\<open>JOIN\<close>, passes
  validation.
\<close>

theorem validateSQLQuery_table_counterexample:
  "validateSQLQuery ''SELECT * FROM secrets UNION SELECT 1'' DEFAULT_ALLOWED_TABLES
     = \<lparr>valid = False,
        error = Some (''Potentially dangerous SQL pattern detected: union''
                        @ [CHR 0x5C] @ ''s+select'')\<rparr>
   \<and> validateSQLQuery (''SELECT * FROM '' @ [CHR 0x22] @ ''secrets'' @ [CHR 0x22])
       DEFAULT_ALLOWED_TABLES
     = \<lparr>valid = True, error = None\<rparr>
   \<and> validateSQLQuery ''SELECT * FROM drone_trajectory JOIN secrets ON 1=1''
       DEFAULT_ALLOWED_TABLES
     = \<lparr>valid = True, error = None\<rparr>"
  by code_simp

text \<open>
  Claim C7, as the code has it: when no forbidden pattern matches the statement, the
  statement has a \<^verbatim>\<open>FROM\<close> keyword followed by whitespace and a bare word whose lower
  case is outside the whitelist, and the whitelist does not hold the word \<^verbatim>\<open>from\<close>
  (the default one does not), validation fails with \<^verbatim>\<open>Table not in allowed list: t\<close>
  where \<open>t\<close> is the lower case of a word that the statement has after a \<^verbatim>\<open>FROM\<close> and
  that is outside the whitelist.
\<close>

theorem validateSQLQuery_table_not_allowed:
  assumes "from_names None sql w" and "toLowerCase w \<notin> set allowedTables"
    and "''from'' \<notin> set allowedTables"
    and "\<forall>pattern\<in>set dangerousPatterns. \<not> test pattern sql"
  shows "\<exists>t. from_names None sql t \<and> toLowerCase t \<notin> set allowedTables
           \<and> validateSQLQuery sql allowedTables =
               \<lparr>valid = False,
                error = Some (''Table not in allowed list: '' @ toLowerCase t)\<rparr>"
proof -
  from assms(4) have "scanPatterns dangerousPatterns sql = None"
    by (simp add: scanPatterns_None)
  then have "validateSQLQuery sql allowedTables = tableLoop allowedTables None sql"
    by (simp add: validateSQLQuery_def)
  with tableLoop_from_names [OF assms(1,2,3)] show ?thesis
    by (simp add: table_rejected_def)
qed

theorem validateSQLQuery_table_not_allowed_witness:
  "from_names None ''SELECT * FROM secrets WHERE 1=1'' ''secrets''
   \<and> toLowerCase ''secrets'' \<notin> set DEFAULT_ALLOWED_TABLES
   \<and> ''from'' \<notin> set DEFAULT_ALLOWED_TABLES
   \<and> list_all (\<lambda>pattern. \<not> test pattern ''SELECT * FROM secrets WHERE 1=1'') dangerousPatterns
   \<and> (\<exists>t. from_names None ''SELECT * FROM secrets WHERE 1=1'' t
          \<and> toLowerCase t \<notin> set DEFAULT_ALLOWED_TABLES
          \<and> validateSQLQuery ''SELECT * FROM secrets WHERE 1=1'' DEFAULT_ALLOWED_TABLES =
              \<lparr>valid = False,
               error = Some (''Table not in allowed list: '' @ toLowerCase t)\<rparr>)"
proof -
  have "''SELECT * FROM secrets WHERE 1=1'' = ''SELECT * '' @ ''FROM'' @ '' '' @ ''secrets'' @ '' WHERE 1=1''
        \<and> \<not> word_before (prev_after None ''SELECT * '') \<and> ci_equal ''FROM'' ''from''
        \<and> '' '' \<noteq> [] \<and> list_all is_space '' '' \<and> ''secrets'' \<noteq> []
        \<and> list_all is_word ''secrets'' \<and> \<not> word_at '' WHERE 1=1''"
    by code_simp
  then have a: "from_names None ''SELECT * FROM secrets WHERE 1=1'' ''secrets''"
    unfolding from_names_def by blast
  have b: "toLowerCase ''secrets'' \<notin> set DEFAULT_ALLOWED_TABLES" by code_simp
  have c: "''from'' \<notin> set DEFAULT_ALLOWED_TABLES" by code_simp
  have d: "list_all (\<lambda>pattern. \<not> test pattern ''SELECT * FROM secrets WHERE 1=1'') dangerousPatterns"
    by code_simp
  then have d': "\<forall>pattern\<in>set dangerousPatterns. \<not> test pattern ''SELECT * FROM secrets WHERE 1=1''"
    by (simp only: list_all_iff)
  from a b c d validateSQLQuery_table_not_allowed [OF a b c d'] show ?thesis
    by (intro conjI)
qed

section \<open>Properties of the retrying fetch\<close>


end
